theory Spec2Isabelle
  imports Complex_Main "HOL-Library.Char_ord" "HOL-Library.List_Lexorder"
    "HOL-Library.Product_Lexorder"
begin

section \<open>Data model of the alert analysis engine (src/engine.py)\<close>

text \<open>
  Python's unbounded integers are \<open>int\<close>, strings are \<open>string\<close>, a field that may be
  \<^verbatim>\<open>None\<close> is an \<open>option\<close>. Only the fields of a normalized alert that the pipeline
  stages after the normalizer read are kept.
\<close>

datatype status = Firing | Resolved

datatype severity = Low | Medium | High | Critical

record alert =
  ts :: int
  source :: string
  vendor_event_id :: string
  resource_id :: string
  fingerprint :: string
  status :: status
  severity :: severity
  entity_key :: string
  service :: string
  deploy_key :: "string option"
  net_key :: "string option"

text \<open>The command line options (\<^verbatim>\<open>self.args\<close>); \<open>window\<close> and \<open>hop\<close> are only echoed.\<close>

record config =
  window :: int
  hop :: int
  dedup_ttl :: int
  episode_gap :: int
  max_lag :: int
  min_support :: int

section \<open>NoiseFilter: \<^verbatim>\<open>_apply_noise_cut\<close>\<close>

text \<open>
  The three trackers of \<^verbatim>\<open>AlertEngine.__init__\<close>. \<^verbatim>\<open>dedup_cache\<close> is a dict, the two
  others are \<^verbatim>\<open>defaultdict(list)\<close>: a key that was never written reads as the empty list.
\<close>

record noise_state =
  dedup_cache :: "(string \<times> severity \<times> string) \<rightharpoonup> int"
  flap_tracker :: "(string \<times> string) \<Rightarrow> (int \<times> status) list"
  echo_tracker :: "(string \<times> string) \<Rightarrow> (int \<times> string) list"

definition fresh_state :: noise_state where
  "fresh_state = \<lparr>dedup_cache = Map.empty, flap_tracker = (\<lambda>k. []), echo_tracker = (\<lambda>k. [])\<rparr>"

definition dedup_key :: "alert \<Rightarrow> string \<times> severity \<times> string" where
  "dedup_key a = (fingerprint a, severity a, entity_key a)"

definition echo_key :: "alert \<Rightarrow> string \<times> string" where
  "echo_key a = (fingerprint a, entity_key a)"

definition echo_window :: int where
  "echo_window = 10 * 1000"

definition flap_window :: int where
  "flap_window = 10 * 60 * 1000"

text \<open>The dedup test: the key is cached and the alert is less than the TTL after it.\<close>

definition is_duplicate :: "config \<Rightarrow> noise_state \<Rightarrow> alert \<Rightarrow> bool" where
  "is_duplicate cfg st a =
     (case dedup_cache st (dedup_key a) of
        None \<Rightarrow> False
      | Some t \<Rightarrow> ts a - t < dedup_ttl cfg * 1000)"

text \<open>The inner \<^verbatim>\<open>for prev_ts, prev_source in self.echo_tracker[echo_key]\<close> loop.\<close>

definition is_echo :: "noise_state \<Rightarrow> alert \<Rightarrow> bool" where
  "is_echo st a =
     list_ex (\<lambda>(prev_ts, prev_source). ts a - prev_ts \<le> echo_window \<and> prev_source \<noteq> source a)
       (echo_tracker st (echo_key a))"

text \<open>
  One iteration of the loop over the sorted alerts. The state is the trackers and the list
  \<^verbatim>\<open>filtered_alerts\<close>. The dedup cache is written before the echo test, as in the source.
\<close>

definition noise_step :: "config \<Rightarrow> noise_state \<times> alert list \<Rightarrow> alert \<Rightarrow> noise_state \<times> alert list" where
  "noise_step cfg sf a =
     (let st = fst sf; filtered = snd sf in
      if is_duplicate cfg st a then (st, filtered)
      else
        let st1 = st\<lparr>dedup_cache := (dedup_cache st)(dedup_key a \<mapsto> ts a)\<rparr> in
        if is_echo st1 a then (st1, filtered)
        else
          let ek = echo_key a;
              et = filter (\<lambda>(t, src). ts a - t \<le> echo_window) (echo_tracker st1 ek @ [(ts a, source a)]);
              ft = filter (\<lambda>(t, s). ts a - t \<le> flap_window) (flap_tracker st1 ek @ [(ts a, status a)]);
              st2 = st1\<lparr>echo_tracker := (echo_tracker st1)(ek := et),
                        flap_tracker := (flap_tracker st1)(ek := ft)\<rparr>
          in (st2, filtered @ [a]))"

text \<open>
  \<^verbatim>\<open>sorted(alerts, key=lambda x: x['ts'])\<close> is a stable sort, as \<open>sort_key\<close> is. The result
  is the final tracker state and the list of accepted alerts.
\<close>

definition apply_noise_cut :: "config \<Rightarrow> noise_state \<Rightarrow> alert list \<Rightarrow> noise_state \<times> alert list" where
  "apply_noise_cut cfg st alerts = foldl (noise_step cfg) (st, []) (sort_key ts alerts)"

definition noise_filter :: "config \<Rightarrow> alert list \<Rightarrow> alert list" where
  "noise_filter cfg alerts = snd (apply_noise_cut cfg fresh_state alerts)"


section \<open>Python containers\<close>

text \<open>
  A dict whose iteration order matters is an association list in insertion order:
  writing an existing key replaces its value in place, writing a new key appends it.
\<close>

fun dict_set :: "('k \<times> 'v) list \<Rightarrow> 'k \<Rightarrow> 'v \<Rightarrow> ('k \<times> 'v) list" where
  "dict_set [] k v = [(k, v)]"
| "dict_set ((k', v') # d) k v = (if k' = k then (k', v) # d else (k', v') # dict_set d k v)"

text \<open>\<^verbatim>\<open>groups[key].append(x)\<close> on a \<^verbatim>\<open>defaultdict(list)\<close>.\<close>

fun group_add :: "('k \<times> 'v list) list \<Rightarrow> 'k \<Rightarrow> 'v \<Rightarrow> ('k \<times> 'v list) list" where
  "group_add [] k v = [(k, [v])]"
| "group_add ((k', vs) # g) k v =
     (if k' = k then (k', vs @ [v]) # g else (k', vs) # group_add g k v)"

text \<open>
  The order in which Python iterates over a \<^verbatim>\<open>set\<close> of strings is not specified (it
  depends on the hash seed). It is a parameter of the model: \<open>so xs\<close> is the order in
  which the set built from the elements of \<open>xs\<close> is enumerated. All that is known of it
  is \<open>set_order_ok\<close>: every member once.
\<close>

type_synonym set_order = "string list \<Rightarrow> string list"

definition set_order_ok :: "set_order \<Rightarrow> bool" where
  "set_order_ok so = (\<forall>xs. distinct (so xs) \<and> set (so xs) = set xs)"

text \<open>Truthiness of an optional string: \<^verbatim>\<open>None\<close> and the empty string are false.\<close>

fun truthy :: "string option \<Rightarrow> bool" where
  "truthy None = False"
| "truthy (Some s) = (s \<noteq> [])"

fun list_min :: "int list \<Rightarrow> int" where
  "list_min [] = 0"
| "list_min (x # xs) = foldl min x xs"

fun list_max :: "int list \<Rightarrow> int" where
  "list_max [] = 0"
| "list_max (x # xs) = foldl max x xs"

section \<open>EpisodeBuilder: \<^verbatim>\<open>_build_episodes\<close>, \<^verbatim>\<open>_create_episode\<close>\<close>

record episode =
  ep_entity_key :: string
  ep_fingerprint :: string
  ep_start :: int
  ep_end :: int
  ep_count :: nat
  vendors :: "string list"
  vendor_event_ids :: "string list"
  resource_ids :: "string list"
  deploy_keys :: "string list"
  net_keys :: "string list"
  sample_ts :: "int list"
  ep_alerts :: "alert list"

text \<open>
  \<^verbatim>\<open>_create_episode\<close> reads \<^verbatim>\<open>alerts[0]\<close>, an IndexError on the empty list: \<open>None\<close>.
  Both callers test the list first.
\<close>

definition create_episode :: "set_order \<Rightarrow> alert list \<Rightarrow> episode option" where
  "create_episode so alerts0 =
     (let alerts = sort_key ts alerts0 in
      case alerts of
        [] \<Rightarrow> None
      | a0 # _ \<Rightarrow>
          Some \<lparr>ep_entity_key = entity_key a0,
                ep_fingerprint = fingerprint a0,
                ep_start = ts a0,
                ep_end = ts (last alerts),
                ep_count = length alerts,
                vendors = so (map source alerts),
                vendor_event_ids = take 50 (so (map vendor_event_id alerts)),
                resource_ids = take 50 (so (map resource_id alerts)),
                deploy_keys = so (map the (filter truthy (map deploy_key alerts))),
                net_keys = so (map the (filter truthy (map net_key alerts))),
                sample_ts = take 50 (map ts alerts),
                ep_alerts = alerts\<rparr>)"

definition finish_episode :: "set_order \<Rightarrow> episode list \<Rightarrow> alert list \<Rightarrow> episode list" where
  "finish_episode so episodes current =
     (if current = [] then episodes
      else case create_episode so current of None \<Rightarrow> episodes | Some e \<Rightarrow> episodes @ [e])"

text \<open>The loop over one group: the state is \<^verbatim>\<open>episodes\<close> and \<^verbatim>\<open>current_episode\<close>.\<close>

definition split_step :: "config \<Rightarrow> set_order \<Rightarrow> episode list \<times> alert list \<Rightarrow> alert \<Rightarrow> episode list \<times> alert list" where
  "split_step cfg so ec a =
     (let episodes = fst ec; current = snd ec in
      if current \<noteq> [] \<and> ts a - ts (last current) > episode_gap cfg * 1000
      then (finish_episode so episodes current, [a])
      else (episodes, current @ [a]))"

definition group_episodes :: "config \<Rightarrow> set_order \<Rightarrow> episode list \<Rightarrow> alert list \<Rightarrow> episode list" where
  "group_episodes cfg so episodes group_alerts =
     (let ec = foldl (split_step cfg so) (episodes, []) (sort_key ts group_alerts)
      in finish_episode so (fst ec) (snd ec))"

definition build_episodes :: "config \<Rightarrow> set_order \<Rightarrow> alert list \<Rightarrow> episode list" where
  "build_episodes cfg so alerts =
     (let groups = foldl (\<lambda>g a. group_add g (entity_key a, fingerprint a) a) [] alerts
      in foldl (\<lambda>episodes kv. group_episodes cfg so episodes (snd kv)) [] groups)"

section \<open>SituationAssembler: \<^verbatim>\<open>UnionFind\<close>, \<^verbatim>\<open>_build_situations\<close>, \<^verbatim>\<open>_create_situation\<close>\<close>

record union_find =
  parent :: "nat \<rightharpoonup> nat"
  rank :: "nat \<rightharpoonup> nat"

definition uf_empty :: union_find where
  "uf_empty = \<lparr>parent = Map.empty, rank = Map.empty\<rparr>"

text \<open>
  \<^verbatim>\<open>find\<close> with path compression recurses along the parent pointers and need not
  return on a cyclic \<^verbatim>\<open>parent\<close>: the result is an option, \<open>None\<close> when the call does not
  return a value (no termination, or a KeyError).
\<close>

partial_function (option) uf_find :: "union_find \<Rightarrow> nat \<Rightarrow> (union_find \<times> nat) option" where
  "uf_find u x =
     (let u1 = (case parent u x of
                  None \<Rightarrow> u\<lparr>parent := (parent u)(x \<mapsto> x), rank := (rank u)(x \<mapsto> 0)\<rparr>
                | Some _ \<Rightarrow> u)
      in case parent u1 x of
           None \<Rightarrow> None
         | Some p \<Rightarrow>
             if p \<noteq> x
             then Option.bind (uf_find u1 p)
                    (\<lambda>ur. Some ((fst ur)\<lparr>parent := (parent (fst ur))(x \<mapsto> snd ur)\<rparr>, snd ur))
             else Some (u1, p))"

declare uf_find.simps [code]

definition uf_link :: "union_find \<Rightarrow> nat \<Rightarrow> nat \<Rightarrow> union_find option" where
  "uf_link u px0 py0 =
     (if px0 = py0 then Some u
      else case (rank u px0, rank u py0) of
        (Some rx0, Some ry0) \<Rightarrow>
          (let px = (if rx0 < ry0 then py0 else px0);
               py = (if rx0 < ry0 then px0 else py0);
               u1 = u\<lparr>parent := (parent u)(py \<mapsto> px)\<rparr>
           in case (rank u1 px, rank u1 py) of
                (Some rx, Some ry) \<Rightarrow>
                  Some (if rx = ry then u1\<lparr>rank := (rank u1)(px \<mapsto> rx + 1)\<rparr> else u1)
              | _ \<Rightarrow> None)
      | _ \<Rightarrow> None)"

definition uf_union :: "union_find \<Rightarrow> nat \<Rightarrow> nat \<Rightarrow> union_find option" where
  "uf_union u x y =
     Option.bind (uf_find u x) (\<lambda>ux.
     Option.bind (uf_find (fst ux) y) (\<lambda>uy.
       uf_link (fst uy) (snd ux) (snd uy)))"

text \<open>
  The external graph is the dict \<^verbatim>\<open>adj\<close>: entity key to neighbour list, an association
  list here. \<^verbatim>\<open>self.graph.get(k, [])\<close> is \<open>graph_get\<close>.
\<close>

type_synonym graph = "(string \<times> string list) list"

definition graph_get :: "graph \<Rightarrow> string \<Rightarrow> string list" where
  "graph_get g k = (case map_of g k of None \<Rightarrow> [] | Some ns \<Rightarrow> ns)"

definition in_graph :: "graph \<Rightarrow> string \<Rightarrow> bool" where
  "in_graph g k = (map_of g k \<noteq> None)"

definition JOIN_HALO_MS :: int where
  "JOIN_HALO_MS = 300000"

definition overlap :: "episode \<Rightarrow> episode \<Rightarrow> bool" where
  "overlap ep1 ep2 =
     (\<not> (ep_end ep1 + JOIN_HALO_MS < ep_start ep2 \<or> ep_end ep2 + JOIN_HALO_MS < ep_start ep1))"

definition intersecting :: "string list \<Rightarrow> string list \<Rightarrow> bool" where
  "intersecting xs ys = (xs \<noteq> [] \<and> ys \<noteq> [] \<and> list_ex (\<lambda>x. x \<in> set ys) xs)"

definition should_merge :: "graph \<Rightarrow> episode \<Rightarrow> episode \<Rightarrow> bool" where
  "should_merge g ep1 ep2 =
     (ep_entity_key ep1 = ep_entity_key ep2 \<or> ep_fingerprint ep1 = ep_fingerprint ep2
      \<or> intersecting (deploy_keys ep1) (deploy_keys ep2)
      \<or> intersecting (net_keys ep1) (net_keys ep2)
      \<or> (g \<noteq> [] \<and>
          (in_graph g (ep_entity_key ep1) \<and> ep_entity_key ep2 \<in> set (graph_get g (ep_entity_key ep1))
           \<or> in_graph g (ep_entity_key ep2) \<and> ep_entity_key ep1 \<in> set (graph_get g (ep_entity_key ep2)))))"

text \<open>The body of the double loop over \<^verbatim>\<open>enumerate(episodes)\<close>, for one pair of indices.\<close>

definition merge_step :: "graph \<Rightarrow> episode list \<Rightarrow> union_find option \<Rightarrow> nat \<times> nat \<Rightarrow> union_find option" where
  "merge_step g episodes uo ij =
     Option.bind uo (\<lambda>u.
       let i = fst ij; j = snd ij in
       if i \<ge> j then Some u
       else if overlap (episodes ! i) (episodes ! j) \<and> should_merge g (episodes ! i) (episodes ! j)
            then uf_union u i j
            else Some u)"

definition index_pairs :: "nat \<Rightarrow> (nat \<times> nat) list" where
  "index_pairs n = concat (map (\<lambda>i. map (\<lambda>j. (i, j)) [0..<n]) [0..<n])"

definition init_step :: "union_find option \<Rightarrow> nat \<Rightarrow> union_find option" where
  "init_step uo i = Option.bind uo (\<lambda>u. map_option fst (uf_find u i))"

text \<open>
  The grouping loop: \<^verbatim>\<open>situation_groups[uf.find(i)].append(ep)\<close>. The groups hold the
  indices of the episodes.
\<close>

definition root_step :: "(union_find \<times> (nat \<times> nat list) list) option \<Rightarrow> nat \<Rightarrow> (union_find \<times> (nat \<times> nat list) list) option" where
  "root_step ugo i =
     Option.bind ugo (\<lambda>ug.
       map_option (\<lambda>ur. (fst ur, group_add (snd ug) (snd ur) i)) (uf_find (fst ug) i))"

definition situation_groups :: "graph \<Rightarrow> episode list \<Rightarrow> nat list list option" where
  "situation_groups g episodes =
     (let n = length episodes;
          u0 = foldl init_step (Some uf_empty) [0..<n];
          u1 = foldl (merge_step g episodes) u0 (index_pairs n)
      in map_option (\<lambda>ug. map snd (snd ug))
           (foldl root_step (map_option (\<lambda>u. (u, [])) u1) [0..<n]))"


text \<open>
  A situation is the dict built by \<^verbatim>\<open>_create_situation\<close> and enriched in place by the later
  stages. A key that is written only later (\<^verbatim>\<open>bins\<close>, \<^verbatim>\<open>padded_window\<close>,
  \<^verbatim>\<open>rehydrated_alerts\<close>, \<^verbatim>\<open>primary_cause\<close>, \<^verbatim>\<open>score\<close>, \<^verbatim>\<open>next_actions\<close>) is an option,
  \<open>None\<close> while the key is absent. The id \<^verbatim>\<open>f"S-{start}-{end}-{len(episodes)}"\<close> is kept as
  the three numbers it prints. The presentation lists \<^verbatim>\<open>change_refs\<close>, \<^verbatim>\<open>resource_refs\<close>
  and \<^verbatim>\<open>related_alerts\<close>, which no stage reads, are left out.
\<close>

record episode_summary =
  es_entity_key :: string
  es_fingerprint :: string
  es_start :: int
  es_end :: int
  es_count :: nat

datatype reason = DurationBelowMinimum int | NoSpread

record primary_cause =
  pc_entity :: string
  pc_fingerprint :: string
  pc_confidence :: real
  pc_lag_ms :: int

record situation =
  situation_id :: "int \<times> int \<times> nat"
  window_start :: int
  window_end :: int
  episodes :: "episode_summary list"
  blast_entities :: nat
  blast_services :: nat
  all_alerts :: "alert list"
  raw_episodes :: "episode list"
  insufficient_temporal_spread :: bool
  reason :: "reason option"
  pad_ms_used :: int
  bin_size_s :: int
  bins :: "(string \<times> int list) list option"
  padded_window :: "(int \<times> int) option"
  rehydrated_alerts :: "alert list option"
  primary_cause :: "primary_cause option"
  score :: "real option"
  next_actions :: "string list option"

definition PAD_MS_START :: int where
  "PAD_MS_START = 60000"

definition MAX_PAD_MS :: int where
  "MAX_PAD_MS = 600000"

definition BIN_SIZE_S_DEFAULT :: int where
  "BIN_SIZE_S_DEFAULT = 1"

definition BIN_SIZE_S_FALLBACK :: int where
  "BIN_SIZE_S_FALLBACK = 5"

definition MIN_SITUATION_MS :: int where
  "MIN_SITUATION_MS = 10000"

definition MIN_BINS :: nat where
  "MIN_BINS = 3"

definition summary :: "episode \<Rightarrow> episode_summary" where
  "summary ep = \<lparr>es_entity_key = ep_entity_key ep, es_fingerprint = ep_fingerprint ep,
                 es_start = ep_start ep, es_end = ep_end ep, es_count = ep_count ep\<rparr>"

definition create_situation :: "episode list \<Rightarrow> situation option" where
  "create_situation eps =
     (if eps = [] then None
      else
        let start = list_min (map ep_start eps);
            end = list_max (map ep_end eps);
            alerts = concat (map ep_alerts eps)
        in Some \<lparr>situation_id = (start, end, length eps),
                 window_start = start,
                 window_end = end,
                 episodes = map summary eps,
                 blast_entities = length (remdups (map ep_entity_key eps)),
                 blast_services = length (remdups (filter (\<lambda>s. s \<noteq> [] \<and> s \<noteq> ''undefined'') (map service alerts))),
                 all_alerts = alerts,
                 raw_episodes = eps,
                 insufficient_temporal_spread = False,
                 reason = None,
                 pad_ms_used = PAD_MS_START,
                 bin_size_s = BIN_SIZE_S_DEFAULT,
                 bins = None,
                 padded_window = None,
                 rehydrated_alerts = None,
                 primary_cause = None,
                 score = None,
                 next_actions = None\<rparr>)"

text \<open>
  \<^verbatim>\<open>_build_situations\<close>: the situations in the order of \<^verbatim>\<open>situation_groups.values()\<close>, the
  insertion order of the roots. An entry is \<open>None\<close> where \<^verbatim>\<open>_create_situation\<close> returns
  \<^verbatim>\<open>None\<close>.
\<close>

definition build_situations :: "graph \<Rightarrow> episode list \<Rightarrow> situation option list option" where
  "build_situations g eps =
     (if eps = [] then Some []
      else map_option (map (\<lambda>grp. create_situation (map (\<lambda>i. eps ! i) grp)))
             (situation_groups g eps))"

section \<open>TemporalSpreader: \<^verbatim>\<open>_apply_temporal_spread\<close>, \<^verbatim>\<open>_create_bins\<close>\<close>

text \<open>
  \<^verbatim>\<open>int(a / b)\<close>: the quotient truncated towards zero. (Python divides in floating point
  first; for differences of millisecond time stamps the quotient is the exact one.)
\<close>

definition trunc_div :: "int \<Rightarrow> int \<Rightarrow> int" where
  "trunc_div a b = sgn a * sgn b * (\<bar>a\<bar> div \<bar>b\<bar>)"

text \<open>
  \<^verbatim>\<open>bins[series_key][bin_idx] += 1\<close>. Every fingerprint of the alerts is a key of the
  matrix when the set order enumerates every member; for a key that is missing (a
  KeyError in Python) the matrix is left as it is.
\<close>

definition bump_bin :: "(string \<times> int list) list \<Rightarrow> string \<Rightarrow> nat \<Rightarrow> (string \<times> int list) list" where
  "bump_bin bs k i =
     (case map_of bs k of
        None \<Rightarrow> bs
      | Some v \<Rightarrow> dict_set bs k (v[i := v ! i + 1]))"

definition fill_step :: "int \<Rightarrow> int \<Rightarrow> int \<Rightarrow> (string \<times> int list) list \<Rightarrow> alert \<Rightarrow> (string \<times> int list) list" where
  "fill_step start_ms bin_size_ms num_bins bs a =
     (let bin_idx = trunc_div (ts a - start_ms) bin_size_ms in
      if 0 \<le> bin_idx \<and> bin_idx < num_bins then bump_bin bs (fingerprint a) (nat bin_idx) else bs)"

text \<open>
  The series keys are a Python set of fingerprints; the bin matrix is initialised in the
  iteration order of that set.
\<close>

definition create_bins :: "set_order \<Rightarrow> alert list \<Rightarrow> int \<Rightarrow> int \<Rightarrow> int \<Rightarrow> (string \<times> int list) list" where
  "create_bins so alerts start_ms end_ms bin_size =
     (let bin_size_ms = bin_size * 1000;
          num_bins = trunc_div (end_ms - start_ms) bin_size_ms + 1;
          series_keys = so (map fingerprint alerts);
          bins0 = foldl (\<lambda>bs k. dict_set bs k (replicate (nat num_bins) 0)) [] series_keys
      in foldl (fill_step start_ms bin_size_ms num_bins) bins0 alerts)"

text \<open>
  The counter the source names \<^verbatim>\<open>distinct_bins\<close>: one for every series of the matrix that
  has a positive count.
\<close>

definition distinct_bins :: "(string \<times> int list) list \<Rightarrow> nat" where
  "distinct_bins bs = length (filter (\<lambda>kv. list_ex (\<lambda>c. c > 0) (snd kv)) bs)"

definition situation_keys :: "episode list \<Rightarrow> string list" where
  "situation_keys eps =
     concat (map (\<lambda>ep. [ep_entity_key ep, ep_fingerprint ep] @ deploy_keys ep @ net_keys ep) eps)"

definition relevant :: "string list \<Rightarrow> alert \<Rightarrow> bool" where
  "relevant keys a =
     (entity_key a \<in> set keys \<or> fingerprint a \<in> set keys
      \<or> (truthy (deploy_key a) \<and> the (deploy_key a) \<in> set keys)
      \<or> (truthy (net_key a) \<and> the (net_key a) \<in> set keys))"

definition rehydrate :: "alert list \<Rightarrow> int \<Rightarrow> int \<Rightarrow> alert list" where
  "rehydrate relevant_alerts padded_start padded_end =
     filter (\<lambda>a. padded_start \<le> ts a \<and> ts a \<le> padded_end) relevant_alerts"

text \<open>
  One pass of the body of \<^verbatim>\<open>while pad_ms <= MAX_PAD_MS\<close>: \<open>Some\<close> the enriched situation
  when the pass returns it, \<open>None\<close> when the pass falls through to the doubling.
\<close>

definition try_pad :: "set_order \<Rightarrow> alert list \<Rightarrow> situation \<Rightarrow> int \<Rightarrow> situation option" where
  "try_pad so relevant_alerts s pad_ms =
     (let padded_start = window_start s - pad_ms;
          padded_end = window_end s + pad_ms;
          rehydrated = rehydrate relevant_alerts padded_start padded_end
      in if rehydrated = [] then None
         else
           let bins1 = create_bins so rehydrated padded_start padded_end BIN_SIZE_S_DEFAULT;
               fallback = (distinct_bins bins1 < MIN_BINS);
               bin_size = (if fallback then BIN_SIZE_S_FALLBACK else BIN_SIZE_S_DEFAULT);
               bins2 = (if fallback
                        then create_bins so rehydrated padded_start padded_end BIN_SIZE_S_FALLBACK
                        else bins1);
               duration_ms = padded_end - padded_start
           in if distinct_bins bins2 \<ge> MIN_BINS \<and> duration_ms \<ge> MIN_SITUATION_MS
              then Some (s\<lparr>pad_ms_used := pad_ms,
                           bin_size_s := bin_size,
                           bins := Some bins2,
                           padded_window := Some (padded_start, padded_end),
                           rehydrated_alerts := Some rehydrated\<rparr>)
              else None)"

text \<open>
  The while loop. It doubles \<open>pad_ms\<close> and so returns only from a positive start: the
  result is an option, \<open>None\<close> when the loop does not end.
\<close>

partial_function (option) spread_loop :: "set_order \<Rightarrow> alert list \<Rightarrow> situation \<Rightarrow> int \<Rightarrow> situation option" where
  "spread_loop so relevant_alerts s pad_ms =
     (if pad_ms \<le> MAX_PAD_MS
      then (case try_pad so relevant_alerts s pad_ms of
              Some s' \<Rightarrow> Some s'
            | None \<Rightarrow> spread_loop so relevant_alerts s (pad_ms * 2))
      else Some (s\<lparr>insufficient_temporal_spread := True, reason := Some NoSpread\<rparr>))"

declare spread_loop.simps [code]

text \<open>\<open>alerts\<close> is \<^verbatim>\<open>self.alerts\<close>, the alerts that survived the noise filter.\<close>

definition apply_temporal_spread :: "set_order \<Rightarrow> alert list \<Rightarrow> situation \<Rightarrow> situation option" where
  "apply_temporal_spread so alerts s =
     (let start = window_start s; end = window_end s in
      if end - start < MIN_SITUATION_MS
      then Some (s\<lparr>insufficient_temporal_spread := True,
                   reason := Some (DurationBelowMinimum (end - start))\<rparr>)
      else spread_loop so (filter (relevant (situation_keys (raw_episodes s))) alerts) s PAD_MS_START)"


section \<open>CorrelationEngine: \<^verbatim>\<open>_run_correlations\<close> and the three kernels\<close>

text \<open>
  Python computes the scores in double precision; the model computes them in the real
  numbers. The \<^verbatim>\<open>metrics\<close> dict of a record holds one entry, named after the method.
\<close>

datatype metrics = Burst nat real | Pmi real nat | Leadlag int real

datatype corr_method = BurstMethod | PmiMethod | LeadlagMethod

fun method_of :: "metrics \<Rightarrow> corr_method" where
  "method_of (Burst aligned sc) = BurstMethod"
| "method_of (Pmi pmi co_count) = PmiMethod"
| "method_of (Leadlag lag_ms sc) = LeadlagMethod"

record correlation =
  corr_method :: corr_method
  corr_situation_id :: "int \<times> int \<times> nat"
  series_a :: string
  series_b :: string
  corr_window :: "int \<times> int"
  corr_metrics :: metrics
  resource_ids_a :: "string list"
  resource_ids_b :: "string list"

text \<open>\<^verbatim>\<open>statistics.median\<close>; it is called on non-empty data only.\<close>

definition median :: "real list \<Rightarrow> real" where
  "median xs =
     (let d = sort xs; n = length d in
      if n mod 2 = 1 then d ! (n div 2)
      else (d ! (n div 2 - 1) + d ! (n div 2)) / 2)"

text \<open>\<^verbatim>\<open>get_burst_threshold\<close>: \<open>None\<close> is \<^verbatim>\<open>float('inf')\<close>.\<close>

definition get_burst_threshold :: "int list \<Rightarrow> real option" where
  "get_burst_threshold series =
     (if series = [] \<or> list_max series = 0 then None
      else
        let m = median (map real_of_int series);
            mad = median (map (\<lambda>x. \<bar>real_of_int x - m\<bar>) series)
        in Some (m + 3 * mad))"

definition bursts :: "int list \<Rightarrow> nat list" where
  "bursts series =
     (case get_burst_threshold series of
        None \<Rightarrow> []
      | Some t \<Rightarrow> filter (\<lambda>i. real_of_int (series ! i) > t) [0..<length series])"

definition aligned_bursts :: "nat list \<Rightarrow> nat list \<Rightarrow> nat" where
  "aligned_bursts bursts_a bursts_b =
     length (filter (\<lambda>ba. list_ex (\<lambda>bb. \<bar>int ba - int bb\<bar> \<le> 1) bursts_b) bursts_a)"

definition burst_correlation :: "config \<Rightarrow> int list \<Rightarrow> int list \<Rightarrow> metrics option" where
  "burst_correlation cfg sa sb =
     (if length sa \<noteq> length sb \<or> length sa < 3 then None
      else
        let bursts_a = bursts sa; bursts_b = bursts sb in
        if bursts_a = [] \<or> bursts_b = [] then None
        else
          let aligned = aligned_bursts bursts_a bursts_b in
          if int aligned < min_support cfg then None
          else
            let burst_score = real aligned / sqrt (real (length bursts_a * length bursts_b)) in
            if burst_score \<ge> 0.2 then Some (Burst aligned burst_score) else None)"

definition active :: "int list \<Rightarrow> int list" where
  "active series = map (\<lambda>x. if x > 0 then 1 else 0) series"

definition pmi_correlation :: "config \<Rightarrow> int list \<Rightarrow> int list \<Rightarrow> metrics option" where
  "pmi_correlation cfg sa sb =
     (if length sa \<noteq> length sb \<or> length sa < 3 then None
      else
        let active_a = active sa; active_b = active sb;
            co_count = length (filter (\<lambda>ab. fst ab \<noteq> 0 \<and> snd ab \<noteq> 0) (zip active_a active_b));
            count_a = sum_list active_a;
            count_b = sum_list active_b;
            total = length sa
        in if int co_count < min_support cfg then None
           else
             let p_ab = real (co_count + 1) / real (total + 4);
                 p_a = real_of_int (count_a + 1) / real (total + 4);
                 p_b = real_of_int (count_b + 1) / real (total + 4)
             in if p_a = 0 \<or> p_b = 0 then None
                else
                  let pmi = log 2 (p_ab / (p_a * p_b)) in
                  if pmi \<ge> 1 then Some (Pmi pmi co_count) else None)"

text \<open>
  One lag of the cross-correlation loop: the state is \<^verbatim>\<open>(best_score, best_lag)\<close>. The lag
  0 is a case of its own in the source, since \<^verbatim>\<open>impulse_a[:-0]\<close> is empty. \<open>lag_aligned\<close>,
  \<open>lag_total_a\<close> and \<open>lag_total_b\<close> are the three local sums of the iteration.
\<close>

definition lag_aligned :: "int list \<Rightarrow> int list \<Rightarrow> nat \<Rightarrow> int" where
  "lag_aligned ia ib lag =
     (if lag = 0 then sum_list (map (\<lambda>ab. fst ab * snd ab) (zip ia ib))
      else sum_list (map (\<lambda>i. ia ! i * ib ! (i + lag)) [0..<length ia - lag]))"

definition lag_total_a :: "int list \<Rightarrow> nat \<Rightarrow> int" where
  "lag_total_a ia lag = (if lag = 0 then sum_list ia else sum_list (take (length ia - lag) ia))"

definition lag_total_b :: "int list \<Rightarrow> nat \<Rightarrow> int" where
  "lag_total_b ib lag = (if lag = 0 then sum_list ib else sum_list (drop lag ib))"

definition lag_step :: "int list \<Rightarrow> int list \<Rightarrow> real \<times> nat \<Rightarrow> nat \<Rightarrow> real \<times> nat" where
  "lag_step ia ib best lag =
     (let aligned = lag_aligned ia ib lag;
          total_a = lag_total_a ia lag;
          total_b = lag_total_b ib lag
      in if total_a = 0 \<or> total_b = 0 then best
         else
           let sc = real_of_int aligned / sqrt (real_of_int (total_a * total_b)) in
           if sc > fst best then (sc, lag) else best)"

definition best_lag :: "config \<Rightarrow> int list \<Rightarrow> int list \<Rightarrow> real \<times> nat" where
  "best_lag cfg sa sb =
     (let ia = active sa; ib = active sb;
          max_lag_bins = min (max_lag cfg) (int (length ia) - 1)
      in foldl (lag_step ia ib) (0, 0) [0..<nat (max_lag_bins + 1)])"

definition leadlag_correlation :: "config \<Rightarrow> int list \<Rightarrow> int list \<Rightarrow> metrics option" where
  "leadlag_correlation cfg sa sb =
     (if length sa \<noteq> length sb \<or> length sa < 3 then None
      else
        let best = best_lag cfg sa sb in
        if fst best \<ge> 0.3 \<and> sum_list (active sa) \<ge> 2 \<and> sum_list (active sb) \<ge> 2
        then Some (Leadlag (int (snd best) * 1000) (fst best))
        else None)"

definition get_resource_ids_for_series :: "set_order \<Rightarrow> situation \<Rightarrow> string \<Rightarrow> string list" where
  "get_resource_ids_for_series so s series_key =
     take 10 (so (concat (map resource_ids
       (filter (\<lambda>ep. ep_fingerprint ep = series_key) (raw_episodes s)))))"

text \<open>\<^verbatim>\<open>bins[series_key]\<close>, for a key of the matrix.\<close>

definition series :: "(string \<times> int list) list \<Rightarrow> string \<Rightarrow> int list" where
  "series bs k = (case map_of bs k of None \<Rightarrow> [] | Some v \<Rightarrow> v)"

text \<open>
  \<^verbatim>\<open>if corr: correlations.append({...})\<close>. The record reads
  \<^verbatim>\<open>situation['padded_window']\<close>, a KeyError (\<open>None\<close>) when the key is absent.
\<close>

definition emit :: "set_order \<Rightarrow> situation \<Rightarrow> string \<Rightarrow> string \<Rightarrow> metrics option \<Rightarrow> correlation list \<Rightarrow> correlation list option" where
  "emit so s a b mo correlations =
     (case mo of
        None \<Rightarrow> Some correlations
      | Some m \<Rightarrow>
          (case padded_window s of
             None \<Rightarrow> None
           | Some w \<Rightarrow>
               Some (correlations @
                 [\<lparr>corr_method = method_of m,
                   corr_situation_id = situation_id s,
                   series_a = a,
                   series_b = b,
                   corr_window = w,
                   corr_metrics = m,
                   resource_ids_a = get_resource_ids_for_series so s a,
                   resource_ids_b = get_resource_ids_for_series so s b\<rparr>])))"

text \<open>The body of the loop over the pairs: burst, then PMI, then lead-lag.\<close>

definition pair_step :: "config \<Rightarrow> set_order \<Rightarrow> situation \<Rightarrow> (string \<times> int list) list \<Rightarrow> correlation list option \<Rightarrow> string \<times> string \<Rightarrow> correlation list option" where
  "pair_step cfg so s bs co ab =
     (let a = fst ab; b = snd ab in
      Option.bind co (\<lambda>c0.
      Option.bind (emit so s a b (burst_correlation cfg (series bs a) (series bs b)) c0) (\<lambda>c1.
      Option.bind (emit so s a b (pmi_correlation cfg (series bs a) (series bs b)) c1) (\<lambda>c2.
        emit so s a b (leadlag_correlation cfg (series bs a) (series bs b)) c2))))"

text \<open>\<^verbatim>\<open>itertools.combinations(series_keys, 2)\<close>.\<close>

fun combinations2 :: "'a list \<Rightarrow> ('a \<times> 'a) list" where
  "combinations2 [] = []"
| "combinations2 (x # xs) = map (\<lambda>y. (x, y)) xs @ combinations2 xs"

definition MAX_SERIES :: nat where
  "MAX_SERIES = 400"

definition MAX_PAIRS :: nat where
  "MAX_PAIRS = 20000"

text \<open>
  The series keys are \<^verbatim>\<open>list(bins.keys())\<close>, in the order of the matrix; above
  \<open>MAX_SERIES\<close> the tuples \<^verbatim>\<open>(activity, key)\<close> are sorted in descending order and the first
  \<open>MAX_SERIES\<close> keys are kept.
\<close>

definition limit_series :: "(string \<times> int list) list \<Rightarrow> string list" where
  "limit_series bs =
     (let series_keys = map fst bs in
      if length series_keys > MAX_SERIES
      then map snd (take MAX_SERIES (rev (sort (map (\<lambda>k. (sum_list (series bs k), k)) series_keys))))
      else series_keys)"

definition correlation_pairs :: "(string \<times> int list) list \<Rightarrow> (string \<times> string) list" where
  "correlation_pairs bs =
     (let pairs = combinations2 (limit_series bs) in
      if length pairs > MAX_PAIRS then take MAX_PAIRS pairs else pairs)"

definition run_correlations :: "config \<Rightarrow> set_order \<Rightarrow> situation \<Rightarrow> correlation list option" where
  "run_correlations cfg so s =
     (if insufficient_temporal_spread s then Some []
      else case bins s of
        None \<Rightarrow> Some []
      | Some bs \<Rightarrow>
          if bs = [] then Some []
          else foldl (pair_step cfg so s bs) (Some []) (correlation_pairs bs))"


section \<open>CauseSelector: \<^verbatim>\<open>_select_primary_cause\<close> and its helpers\<close>

definition graph_nodes :: "graph \<Rightarrow> string set" where
  "graph_nodes g = set (concat (map snd g))"

lemma graph_get_nodes: "set (graph_get g k) \<subseteq> graph_nodes g"
proof (cases "map_of g k")
  case None
  then show ?thesis by (simp add: graph_get_def)
next
  case (Some ns)
  then have "(k, ns) \<in> set g" by (rule map_of_SomeD)
  then have "set ns \<subseteq> graph_nodes g" by (force simp: graph_nodes_def)
  with Some show ?thesis by (simp add: graph_get_def)
qed

text \<open>
  The while loop of \<^verbatim>\<open>_has_path_bfs\<close>: \<^verbatim>\<open>visited\<close> (a set, here the list of its members)
  and \<^verbatim>\<open>queue\<close>. An iteration either drops a visited node from the queue or visits a new
  node of the finite graph, so the loop ends.
\<close>

function bfs_loop :: "graph \<Rightarrow> string \<Rightarrow> string list \<Rightarrow> string list \<Rightarrow> bool" where
  "bfs_loop g target visited [] = False"
| "bfs_loop g target visited (current # queue) =
     (if current \<in> set visited then bfs_loop g target visited queue
      else if current = target then True
      else bfs_loop g target (current # visited)
             (queue @ filter (\<lambda>n. n \<notin> set (current # visited)) (graph_get g current)))"
  by pat_completeness auto
termination
proof (relation "inv_image (less_than <*lex*> less_than)
    (\<lambda>(g, target, visited, queue). (card ((graph_nodes g \<union> set queue) - set visited), length queue))",
    goal_cases)
  case 1
  show ?case by (intro wf_inv_image wf_lex_prod wf_less_than)
next
  case (2 g target visited current queue)
  then have "(graph_nodes g \<union> set queue) - set visited = (graph_nodes g \<union> set (current # queue)) - set visited"
    by auto
  then show ?case by simp
next
  case (3 g target visited current queue)
  let ?q = "queue @ filter (\<lambda>n. n \<notin> set (current # visited)) (graph_get g current)"
  have fin: "finite ((graph_nodes g \<union> set (current # queue)) - set visited)"
    by (simp add: graph_nodes_def)
  have "set (graph_get g current) \<subseteq> graph_nodes g" by (rule graph_get_nodes)
  then have sub: "(graph_nodes g \<union> set ?q) - set (current # visited)
      \<subseteq> ((graph_nodes g \<union> set (current # queue)) - set visited) - {current}"
    by auto
  have mem: "current \<in> (graph_nodes g \<union> set (current # queue)) - set visited"
    using 3 by simp
  have "card ((graph_nodes g \<union> set ?q) - set (current # visited))
      \<le> card (((graph_nodes g \<union> set (current # queue)) - set visited) - {current})"
    using sub fin by (intro card_mono) auto
  also have "\<dots> < card ((graph_nodes g \<union> set (current # queue)) - set visited)"
    using fin mem by (intro card_Diff1_less)
  finally show ?case by simp
qed

definition has_path_bfs :: "graph \<Rightarrow> string \<Rightarrow> string \<Rightarrow> bool" where
  "has_path_bfs g start target = (if start = target then True else bfs_loop g target [] [start])"

text \<open>
  \<^verbatim>\<open>_check_dependency_path\<close>: without a graph a path is assumed; otherwise some episode
  other than the cause episode (\<^verbatim>\<open>episode == cause_episode\<close> compares the dicts) has an
  entity the search reaches from the cause entity.
\<close>

definition check_dependency_path :: "graph \<Rightarrow> episode \<Rightarrow> episode list \<Rightarrow> bool" where
  "check_dependency_path g cause_episode all_episodes =
     (if g = [] then True
      else list_ex (\<lambda>ep. ep \<noteq> cause_episode
                         \<and> has_path_bfs g (ep_entity_key cause_episode) (ep_entity_key ep))
             all_episodes)"

fun toggles :: "status list \<Rightarrow> nat" where
  "toggles (x # y # zs) = (if y \<noteq> x then 1 else 0) + toggles (y # zs)"
| "toggles _ = 0"

definition calculate_flap_score :: "noise_state \<Rightarrow> string \<Rightarrow> string \<Rightarrow> real" where
  "calculate_flap_score st fp ek =
     (let statuses = map snd (flap_tracker st (fp, ek)) in
      if length statuses < 2 then 0
      else min 0.3 (real (toggles statuses) / real (length statuses)))"

text \<open>The loop over the alerts of the episode, with its \<^verbatim>\<open>break\<close> at the first critical one.\<close>

fun max_severity :: "severity \<Rightarrow> alert list \<Rightarrow> severity" where
  "max_severity m [] = m"
| "max_severity m (a # as) =
     (if severity a = Critical then Critical
      else if severity a = High \<and> m \<noteq> Critical then max_severity High as
      else if severity a = Medium \<and> m \<noteq> Critical \<and> m \<noteq> High then max_severity Medium as
      else max_severity m as)"

fun severity_scores :: "severity \<Rightarrow> real" where
  "severity_scores Low = 0.25"
| "severity_scores Medium = 0.5"
| "severity_scores High = 0.75"
| "severity_scores Critical = 1.0"

record score_components =
  change_proximity :: real
  lead_lag :: real
  graph_path :: real
  cardinality :: real
  sev :: real
  flap :: real
  echo :: real

definition calculate_score_components :: "graph \<Rightarrow> noise_state \<Rightarrow> episode \<Rightarrow> situation \<Rightarrow> bool \<Rightarrow> score_components" where
  "calculate_score_components g st ep s has_path =
     (let time_since_change = (0 :: int);
          unique_entities = length (remdups (map ep_entity_key (raw_episodes s)))
      in \<lparr>change_proximity =
             (if deploy_keys ep \<noteq> []
              then (if time_since_change \<le> 5 then 1.0
                    else if time_since_change \<le> 15 then 0.7 else 0.2)
              else 0.0),
           lead_lag = 0.0,
           graph_path = (if has_path \<and> g \<noteq> [] then 1.0 / (1 + 1) else 0.0),
           cardinality = ln (real (max 1 unique_entities)) / ln 10,
           sev = severity_scores (max_severity Low (ep_alerts ep)),
           flap = calculate_flap_score st (ep_fingerprint ep) (ep_entity_key ep),
           echo = (if length (echo_tracker st (ep_fingerprint ep, ep_entity_key ep)) > 1
                   then 0.3 else 0.0)\<rparr>)"

definition generate_next_actions :: "episode \<Rightarrow> real \<Rightarrow> string list" where
  "generate_next_actions ep confidence =
     (if confidence > 0.8
      then (if deploy_keys ep \<noteq> []
            then [''rollback deployment '' @ take 8 (hd (deploy_keys ep))] else [])
           @ [''page oncall team'']
      else if confidence > 0.5 then [''investigate root cause'', ''check recent changes'']
      else [''monitor situation'', ''gather more data''])"

text \<open>\<^verbatim>\<open>min(episodes, key=lambda ep: ep['start'])\<close>: the first episode of least start.\<close>

fun earliest :: "episode \<Rightarrow> episode list \<Rightarrow> episode" where
  "earliest m [] = m"
| "earliest m (ep # eps) = earliest (if ep_start ep < ep_start m then ep else m) eps"

definition composite_score :: "score_components \<Rightarrow> real" where
  "composite_score c =
     0.35 * change_proximity c + 0.20 * lead_lag c + 0.20 * graph_path c
     + 0.15 * cardinality c + 0.15 * sev c - 0.10 * flap c - 0.05 * echo c"

definition confidence_of :: "graph \<Rightarrow> noise_state \<Rightarrow> situation \<Rightarrow> episode \<Rightarrow> real" where
  "confidence_of g st s earliest_episode =
     (let has_path = check_dependency_path g earliest_episode (raw_episodes s);
          confidence = min 1.0 (max 0.0
            (composite_score (calculate_score_components g st earliest_episode s has_path)))
      in if \<not> has_path \<and> g \<noteq> [] then min confidence 0.35 else confidence)"

definition select_primary_cause :: "graph \<Rightarrow> noise_state \<Rightarrow> situation \<Rightarrow> situation" where
  "select_primary_cause g st s =
     (case raw_episodes s of
        [] \<Rightarrow> s
      | ep0 # eps \<Rightarrow>
          let earliest_episode = earliest ep0 eps;
              confidence = confidence_of g st s earliest_episode
          in s\<lparr>primary_cause := Some \<lparr>pc_entity = ep_entity_key earliest_episode,
                                      pc_fingerprint = ep_fingerprint earliest_episode,
                                      pc_confidence = confidence,
                                      pc_lag_ms = 0\<rparr>,
               score := Some confidence,
               next_actions := Some (generate_next_actions earliest_episode confidence)\<rparr>)"


section \<open>Emitter and main flow: \<^verbatim>\<open>_write_output\<close>, \<^verbatim>\<open>run\<close>\<close>

text \<open>
  The records of the output stream. \<^verbatim>\<open>generated_at\<close> (the clock) and \<^verbatim>\<open>input_dir\<close> (the
  path) are left out of \<open>run_meta\<close>.
\<close>

record run_meta =
  window_sec :: int
  max_lag_sec :: int
  rm_min_support :: int
  dedup_ttl_sec :: int
  episode_gap_sec :: int
  raw_alerts :: nat
  processed_alerts :: nat
  episodes_created :: nat
  situations_created :: nat
  correlations_found :: nat

record situation_out =
  so_situation_id :: "int \<times> int \<times> nat"
  so_window :: "int \<times> int"
  so_episodes :: "episode_summary list"
  so_primary_cause :: "primary_cause option"
  so_blast_radius :: "nat \<times> nat"
  so_score :: real
  so_next_actions :: "string list"
  so_insufficient_temporal_spread :: bool
  so_reason :: "reason option"
  so_pad_ms_used :: int
  so_bin_size_s :: int

datatype out_record =
  RunMeta run_meta
| SituationRec situation_out
| CorrelationRec correlation

definition output_situation :: "situation \<Rightarrow> situation_out" where
  "output_situation s =
     \<lparr>so_situation_id = situation_id s,
      so_window = (window_start s, window_end s),
      so_episodes = episodes s,
      so_primary_cause = primary_cause s,
      so_blast_radius = (blast_entities s, blast_services s),
      so_score = (case score s of None \<Rightarrow> 0.0 | Some c \<Rightarrow> c),
      so_next_actions = (case next_actions s of None \<Rightarrow> [] | Some as \<Rightarrow> as),
      so_insufficient_temporal_spread = insufficient_temporal_spread s,
      so_reason = reason s,
      so_pad_ms_used = pad_ms_used s,
      so_bin_size_s = bin_size_s s\<rparr>"

text \<open>
  The state of the engine when \<^verbatim>\<open>_write_output\<close> runs: \<^verbatim>\<open>self.raw_alerts\<close>,
  \<^verbatim>\<open>self.alerts\<close>, \<^verbatim>\<open>self.episodes\<close>, \<^verbatim>\<open>self.situations\<close>, \<^verbatim>\<open>self.correlations\<close>.
\<close>

definition write_output :: "config \<Rightarrow> nat \<Rightarrow> alert list \<Rightarrow> episode list \<Rightarrow> situation list \<Rightarrow> correlation list \<Rightarrow> out_record list" where
  "write_output cfg n_raw alerts eps sits corrs =
     RunMeta \<lparr>window_sec = window cfg,
              max_lag_sec = max_lag cfg,
              rm_min_support = min_support cfg,
              dedup_ttl_sec = dedup_ttl cfg,
              episode_gap_sec = episode_gap cfg,
              raw_alerts = n_raw,
              processed_alerts = length alerts,
              episodes_created = length eps,
              situations_created = length sits,
              correlations_found = length corrs\<rparr>
     # map (\<lambda>s. SituationRec (output_situation s)) sits
     @ map CorrelationRec corrs"

text \<open>
  The body of the loop over the raw situations: \<^verbatim>\<open>self.situations\<close> and
  \<^verbatim>\<open>self.correlations\<close> are the state. \<open>alerts\<close> is \<^verbatim>\<open>self.alerts\<close> and \<open>st\<close> the trackers,
  both as the noise filter left them.
\<close>

definition process_situation :: "config \<Rightarrow> set_order \<Rightarrow> graph \<Rightarrow> noise_state \<Rightarrow> alert list \<Rightarrow> (situation list \<times> correlation list) option \<Rightarrow> situation option \<Rightarrow> (situation list \<times> correlation list) option" where
  "process_situation cfg so g st alerts acc raw =
     Option.bind acc (\<lambda>sc.
       case raw of
         None \<Rightarrow> Some sc
       | Some s0 \<Rightarrow>
           Option.bind (apply_temporal_spread so alerts s0) (\<lambda>s1.
           Option.bind (if \<not> insufficient_temporal_spread s1
                        then run_correlations cfg so s1 else Some []) (\<lambda>correlations.
             Some (fst sc @ [select_primary_cause g st s1], snd sc @ correlations))))"

text \<open>
  \<^verbatim>\<open>run\<close>. The raw records come from \<^verbatim>\<open>load_alerts\<close>; \<open>normalizer\<close> stands for the
  normalizer on one raw record, \<open>None\<close> where \<^verbatim>\<open>normalize_alerts\<close> skips the record. The
  result is the list of the records written to the output file, the empty list when
  \<^verbatim>\<open>run\<close> returns before \<^verbatim>\<open>_write_output\<close>; \<open>None\<close> when \<^verbatim>\<open>run\<close> does not return.
\<close>

definition run :: "config \<Rightarrow> set_order \<Rightarrow> graph \<Rightarrow> ('raw \<Rightarrow> alert option) \<Rightarrow> 'raw list \<Rightarrow> out_record list option" where
  "run cfg so g normalizer raws =
     (if raws = [] then Some []
      else
        let alerts = List.map_filter normalizer raws in
        if alerts = [] then Some []
        else
          let sf = apply_noise_cut cfg fresh_state alerts;
              st = fst sf;
              filtered_alerts = snd sf;
              eps = build_episodes cfg so filtered_alerts
          in Option.bind (build_situations g eps) (\<lambda>raw_situations.
             Option.bind (foldl (process_situation cfg so g st filtered_alerts) (Some ([], []))
                            raw_situations) (\<lambda>sc.
               Some (write_output cfg (length raws) filtered_alerts eps (fst sc) (snd sc)))))"


section \<open>Concrete inputs\<close>

definition engine_defaults :: config where
  "engine_defaults = \<lparr>window = 900, hop = 1, dedup_ttl = 120, episode_gap = 300, max_lag = 90, min_support = 3\<rparr>"

definition mk_alert :: "int \<Rightarrow> string \<Rightarrow> string \<Rightarrow> alert" where
  "mk_alert t fp ek =
     \<lparr>ts = t, source = ''datadog'', vendor_event_id = ''e'', resource_id = ''r'',
      fingerprint = fp, status = Firing, severity = High, entity_key = ek,
      service = ''undefined'', deploy_key = None, net_key = None\<rparr>"


section \<open>The noise filter: spacing of the accepted alerts and idempotence\<close>


lemma is_echo_dedup_upd [simp]: "is_echo (st\<lparr>dedup_cache := c\<rparr>) a = is_echo st a"
  by (simp add: is_echo_def)

definition accepts :: "config \<Rightarrow> noise_state \<Rightarrow> alert \<Rightarrow> bool" where
  "accepts cfg st a = (\<not> is_duplicate cfg st a \<and> \<not> is_echo st a)"

lemma noise_step_snd:
  "snd (noise_step cfg (st, f) a) = f @ (if accepts cfg st a then [a] else [])"
  by (simp add: noise_step_def accepts_def Let_def)

lemma noise_step_acc:
  "noise_step cfg (st, f) a = (fst (noise_step cfg (st, []) a), f @ snd (noise_step cfg (st, []) a))"
  by (simp add: noise_step_def Let_def)

lemma foldl_noise_step_acc:
  "foldl (noise_step cfg) (st, f) xs =
     (fst (foldl (noise_step cfg) (st, []) xs), f @ snd (foldl (noise_step cfg) (st, []) xs))"
proof (induction xs arbitrary: st f)
  case Nil
  show ?case by simp
next
  case (Cons x xs)
  obtain st' d where sd: "noise_step cfg (st, []) x = (st', d)" by (cases "noise_step cfg (st, []) x")
  have 1: "noise_step cfg (st, f) x = (st', f @ d)"
    using noise_step_acc [of cfg st f x] sd by simp
  show ?case
    using Cons.IH [of st' "f @ d"] Cons.IH [of st' d] by (simp add: 1 sd)
qed


definition spaced :: "config \<Rightarrow> alert \<Rightarrow> alert \<Rightarrow> bool" where
  "spaced cfg y x = (dedup_key y = dedup_key x \<longrightarrow> ts y + dedup_ttl cfg * 1000 \<le> ts x)"

definition cache_covers :: "noise_state \<Rightarrow> alert list \<Rightarrow> bool" where
  "cache_covers st f = (\<forall>y \<in> set f. \<exists>t. dedup_cache st (dedup_key y) = Some t \<and> ts y \<le> t)"

lemma noise_step_cases:
  obtains (dup) "is_duplicate cfg st a" "noise_step cfg (st, f) a = (st, f)"
  | (echo) "\<not> is_duplicate cfg st a" "is_echo st a"
      "noise_step cfg (st, f) a = (st\<lparr>dedup_cache := (dedup_cache st)(dedup_key a \<mapsto> ts a)\<rparr>, f)"
  | (acc) st' where "\<not> is_duplicate cfg st a" "\<not> is_echo st a"
      "noise_step cfg (st, f) a = (st', f @ [a])"
      "dedup_cache st' = (dedup_cache st)(dedup_key a \<mapsto> ts a)"
      "echo_tracker st' = (echo_tracker st)(echo_key a :=
          filter (\<lambda>(t, src). ts a - t \<le> echo_window) (echo_tracker st (echo_key a) @ [(ts a, source a)]))"
  by (cases "is_duplicate cfg st a"; cases "is_echo st a") (auto simp: noise_step_def Let_def)

lemma noise_cut_spaced:
  "sorted (map ts xs) \<Longrightarrow> sorted_wrt (spaced cfg) f \<Longrightarrow> cache_covers st f \<Longrightarrow>
   (\<forall>y \<in> set f. \<forall>x \<in> set xs. ts y \<le> ts x) \<Longrightarrow>
   sorted_wrt (spaced cfg) (snd (foldl (noise_step cfg) (st, f) xs))"
proof (induction xs arbitrary: st f)
  case Nil
  then show ?case by simp
next
  case (Cons x xs)
  have srt: "sorted (map ts xs)" and le: "\<forall>x' \<in> set xs. ts x \<le> ts x'"
    using Cons.prems(1) by auto
  show ?case
  proof (cases rule: noise_step_cases [of cfg st x f])
    case dup
    then show ?thesis using Cons.IH [of f st] Cons.prems srt by simp
  next
    case echo
    have "cache_covers (st\<lparr>dedup_cache := (dedup_cache st)(dedup_key x \<mapsto> ts x)\<rparr>) f"
      using Cons.prems(3,4) by (auto simp: cache_covers_def)
    then show ?thesis using Cons.IH [of f] Cons.prems srt echo by simp
  next
    case (acc st')
    have sp: "\<forall>y \<in> set f. spaced cfg y x"
    proof
      fix y assume y: "y \<in> set f"
      show "spaced cfg y x"
        unfolding spaced_def
      proof
        assume k: "dedup_key y = dedup_key x"
        from Cons.prems(3) y obtain t where t: "dedup_cache st (dedup_key y) = Some t" "ts y \<le> t"
          by (auto simp: cache_covers_def)
        from acc(1) t(1) k have "\<not> ts x - t < dedup_ttl cfg * 1000"
          by (simp add: is_duplicate_def)
        with t(2) show "ts y + dedup_ttl cfg * 1000 \<le> ts x" by simp
      qed
    qed
    have 1: "sorted_wrt (spaced cfg) (f @ [x])"
      using Cons.prems(2) sp by (simp add: sorted_wrt_append)
    have 2: "cache_covers st' (f @ [x])"
      using Cons.prems(3,4) acc(4) by (auto simp: cache_covers_def)
    have 3: "\<forall>y \<in> set (f @ [x]). \<forall>x' \<in> set xs. ts y \<le> ts x'"
      using Cons.prems(4) le by auto
    show ?thesis using Cons.IH [OF srt 1 2 3] acc(3) by simp
  qed
qed

definition out :: "config \<Rightarrow> noise_state \<Rightarrow> alert list \<Rightarrow> alert list" where
  "out cfg st xs = snd (foldl (noise_step cfg) (st, []) xs)"

lemma out_Nil [simp]: "out cfg st [] = []"
  by (simp add: out_def)

lemma out_Cons:
  "out cfg st (x # xs) = snd (noise_step cfg (st, []) x) @ out cfg (fst (noise_step cfg (st, []) x)) xs"
  using foldl_noise_step_acc [of cfg "fst (noise_step cfg (st, []) x)" "snd (noise_step cfg (st, []) x)" xs]
  by (simp add: out_def)

lemma set_out: "set (out cfg st xs) \<subseteq> set xs"
proof (induction xs arbitrary: st)
  case Nil
  show ?case by simp
next
  case (Cons x xs)
  have "set (snd (noise_step cfg (st, []) x)) \<subseteq> {x}" by (auto simp: noise_step_snd)
  with Cons.IH show ?case by (fastforce simp: out_Cons)
qed

lemma sorted_out: "sorted (map ts xs) \<Longrightarrow> sorted (map ts (out cfg st xs))"
proof (induction xs arbitrary: st)
  case Nil
  show ?case by simp
next
  case (Cons x xs)
  let ?st = "fst (noise_step cfg (st, []) x)"
  have s: "sorted (map ts (out cfg ?st xs))" using Cons by simp
  have "\<forall>y \<in> set (out cfg ?st xs). ts x \<le> ts y"
    using Cons.prems set_out [of cfg ?st xs] by auto
  with s show ?case by (simp add: out_Cons noise_step_snd)
qed

definition sim :: "noise_state \<Rightarrow> noise_state \<Rightarrow> bool" where
  "sim st1 st2 = (echo_tracker st1 = echo_tracker st2 \<and>
     (\<forall>k t2. dedup_cache st2 k = Some t2 \<longrightarrow> (\<exists>t1. dedup_cache st1 k = Some t1 \<and> t2 \<le> t1)))"

definition cache_below :: "noise_state \<Rightarrow> alert list \<Rightarrow> bool" where
  "cache_below st xs = (\<forall>k t. dedup_cache st k = Some t \<longrightarrow> (\<forall>x \<in> set xs. t \<le> ts x))"

lemma out_refilter:
  "sorted (map ts xs) \<Longrightarrow> sim st1 st2 \<Longrightarrow> cache_below st2 xs \<Longrightarrow>
   out cfg st2 (out cfg st1 xs) = out cfg st1 xs"
proof (induction xs arbitrary: st1 st2)
  case Nil
  show ?case by simp
next
  case (Cons x xs)
  have srt: "sorted (map ts xs)" and le: "\<forall>x' \<in> set xs. ts x \<le> ts x'"
    using Cons.prems(1) by auto
  have below: "cache_below st2 xs" using Cons.prems(3) by (simp add: cache_below_def)
  show ?case
  proof (cases rule: noise_step_cases [of cfg st1 x "[]"])
    case dup
    then show ?thesis using Cons.IH [OF srt Cons.prems(2) below] by (simp add: out_Cons)
  next
    case echo
    have "sim (st1\<lparr>dedup_cache := (dedup_cache st1)(dedup_key x \<mapsto> ts x)\<rparr>) st2"
      unfolding sim_def
    proof (intro conjI allI impI)
      show "echo_tracker (st1\<lparr>dedup_cache := (dedup_cache st1)(dedup_key x \<mapsto> ts x)\<rparr>) = echo_tracker st2"
        using Cons.prems(2) by (simp add: sim_def)
    next
      fix k t2 assume c: "dedup_cache st2 k = Some t2"
      with Cons.prems(3) have "t2 \<le> ts x" unfolding cache_below_def by fastforce
      moreover from Cons.prems(2) c obtain t1 where "dedup_cache st1 k = Some t1" "t2 \<le> t1"
        unfolding sim_def by blast
      ultimately show "\<exists>t1. dedup_cache (st1\<lparr>dedup_cache := (dedup_cache st1)(dedup_key x \<mapsto> ts x)\<rparr>) k = Some t1 \<and> t2 \<le> t1"
        by (cases "k = dedup_key x") simp_all
    qed
    then show ?thesis using Cons.IH [OF srt _ below] echo by (simp add: out_Cons)
  next
    case (acc st1')
    have nd: "\<not> is_duplicate cfg st2 x"
    proof (cases "dedup_cache st2 (dedup_key x)")
      case None
      then show ?thesis by (simp add: is_duplicate_def)
    next
      case (Some t2)
      with Cons.prems(2) obtain t1 where t1: "dedup_cache st1 (dedup_key x) = Some t1" "t2 \<le> t1"
        unfolding sim_def by blast
      with acc(1) have "\<not> ts x - t1 < dedup_ttl cfg * 1000" by (simp add: is_duplicate_def)
      with t1(2) Some show ?thesis by (simp add: is_duplicate_def)
    qed
    have ne: "\<not> is_echo st2 x"
      using acc(2) Cons.prems(2) by (simp add: is_echo_def sim_def)
    obtain st2' where st2': "noise_step cfg (st2, []) x = (st2', [] @ [x])"
      "dedup_cache st2' = (dedup_cache st2)(dedup_key x \<mapsto> ts x)"
      "echo_tracker st2' = (echo_tracker st2)(echo_key x :=
          filter (\<lambda>(t, src). ts x - t \<le> echo_window) (echo_tracker st2 (echo_key x) @ [(ts x, source x)]))"
      using nd ne by (cases rule: noise_step_cases [of cfg st2 x "[]"]) auto
    have s': "sim st1' st2'"
      unfolding sim_def
    proof (intro conjI allI impI)
      show "echo_tracker st1' = echo_tracker st2'"
        using Cons.prems(2) acc(5) st2'(3) by (simp add: sim_def)
    next
      fix k t2 assume c: "dedup_cache st2' k = Some t2"
      show "\<exists>t1. dedup_cache st1' k = Some t1 \<and> t2 \<le> t1"
      proof (cases "k = dedup_key x")
        case True
        then show ?thesis using c acc(4) st2'(2) by simp
      next
        case False
        with c st2'(2) have "dedup_cache st2 k = Some t2" by simp
        with Cons.prems(2) obtain t1 where "dedup_cache st1 k = Some t1" "t2 \<le> t1"
          unfolding sim_def by blast
        with False acc(4) show ?thesis by simp
      qed
    qed
    have b': "cache_below st2' xs"
      unfolding cache_below_def
    proof (intro allI impI ballI)
      fix k t x' assume c: "dedup_cache st2' k = Some t" and x': "x' \<in> set xs"
      show "t \<le> ts x'"
      proof (cases "k = dedup_key x")
        case True
        then show ?thesis using c st2'(2) le x' by simp
      next
        case False
        with c st2'(2) have "dedup_cache st2 k = Some t" by simp
        with below x' show ?thesis unfolding cache_below_def by blast
      qed
    qed
    show ?thesis
      using Cons.IH [OF srt s' b'] acc(3) st2'(1) by (simp add: out_Cons)
  qed
qed

text \<open>
  C9. The noise filter, started on fresh trackers, returns its own output unchanged.
\<close>

theorem noise_filter_idempotent: "noise_filter cfg (noise_filter cfg alerts) = noise_filter cfg alerts"
proof -
  let ?xs = "sort_key ts alerts"
  have nf: "noise_filter cfg alerts = out cfg fresh_state ?xs"
    by (simp add: noise_filter_def apply_noise_cut_def out_def)
  have srt: "sorted (map ts ?xs)" by simp
  then have "sorted (map ts (out cfg fresh_state ?xs))" by (rule sorted_out)
  then have id: "sort_key ts (out cfg fresh_state ?xs) = out cfg fresh_state ?xs"
    by (rule sort_key_id_if_sorted)
  have "sim fresh_state fresh_state" by (simp add: sim_def)
  moreover have "cache_below fresh_state ?xs" by (simp add: cache_below_def fresh_state_def)
  ultimately have "out cfg fresh_state (out cfg fresh_state ?xs) = out cfg fresh_state ?xs"
    using srt by (intro out_refilter)
  then show ?thesis
    by (simp add: noise_filter_def apply_noise_cut_def out_def id [unfolded out_def])
qed


lemma dedup_scenario:
  "noise_filter (cfg\<lparr>dedup_ttl := 120\<rparr>) [a\<lparr>ts := 0\<rparr>, a\<lparr>ts := 60000\<rparr>, a\<lparr>ts := 125000\<rparr>]
     = [a\<lparr>ts := 0\<rparr>, a\<lparr>ts := 125000\<rparr>]"
  by (simp add: noise_filter_def apply_noise_cut_def noise_step_def is_duplicate_def is_echo_def
      fresh_state_def dedup_key_def echo_key_def echo_window_def flap_window_def Let_def)

text \<open>
  C8. Of two accepted alerts with the same (fingerprint, severity, entity_key), the later
  one comes at least \<open>dedup_ttl\<close> seconds after the earlier one, whatever the trackers held
  at the start; and of three identical alerts at 0, 60000 and 125000 ms with a TTL of
  120 s the filter keeps the first and the last.
\<close>

theorem dedup_spacing:
  "(\<forall>i j. i < j \<and> j < length (snd (apply_noise_cut cfg st alerts))
        \<and> dedup_key (snd (apply_noise_cut cfg st alerts) ! i) = dedup_key (snd (apply_noise_cut cfg st alerts) ! j)
      \<longrightarrow> ts (snd (apply_noise_cut cfg st alerts) ! i) + dedup_ttl cfg * 1000
            \<le> ts (snd (apply_noise_cut cfg st alerts) ! j))
   \<and> noise_filter (cfg\<lparr>dedup_ttl := 120\<rparr>) [a\<lparr>ts := 0\<rparr>, a\<lparr>ts := 60000\<rparr>, a\<lparr>ts := 125000\<rparr>]
        = [a\<lparr>ts := 0\<rparr>, a\<lparr>ts := 125000\<rparr>]"
proof (intro conjI allI impI)
  fix i j
  let ?out = "snd (apply_noise_cut cfg st alerts)"
  assume h: "i < j \<and> j < length ?out \<and> dedup_key (?out ! i) = dedup_key (?out ! j)"
  have "sorted_wrt (spaced cfg) ?out"
    unfolding apply_noise_cut_def
    by (rule noise_cut_spaced) (simp_all add: cache_covers_def)
  with h have "spaced cfg (?out ! i) (?out ! j)"
    by (simp add: sorted_wrt_iff_nth_less)
  with h show "ts (?out ! i) + dedup_ttl cfg * 1000 \<le> ts (?out ! j)"
    by (simp add: spaced_def)
next
  show "noise_filter (cfg\<lparr>dedup_ttl := 120\<rparr>) [a\<lparr>ts := 0\<rparr>, a\<lparr>ts := 60000\<rparr>, a\<lparr>ts := 125000\<rparr>]
     = [a\<lparr>ts := 0\<rparr>, a\<lparr>ts := 125000\<rparr>]"
    by (rule dedup_scenario)
qed

theorem dedup_spacing_witness:
  "snd (apply_noise_cut engine_defaults fresh_state
       [mk_alert 0 ''f'' ''svc:a'', mk_alert 60000 ''f'' ''svc:a'', mk_alert 125000 ''f'' ''svc:a''])
     = [mk_alert 0 ''f'' ''svc:a'', mk_alert 125000 ''f'' ''svc:a'']
   \<and> dedup_key (mk_alert 0 ''f'' ''svc:a'') = dedup_key (mk_alert 125000 ''f'' ''svc:a'')
   \<and> ts (mk_alert 0 ''f'' ''svc:a'') + dedup_ttl engine_defaults * 1000 \<le> ts (mk_alert 125000 ''f'' ''svc:a'')"
proof -
  let ?in = "[mk_alert 0 ''f'' ''svc:a'', mk_alert 60000 ''f'' ''svc:a'', mk_alert 125000 ''f'' ''svc:a'']"
  let ?out = "snd (apply_noise_cut engine_defaults fresh_state ?in)"
  have e: "?out = [mk_alert 0 ''f'' ''svc:a'', mk_alert 125000 ''f'' ''svc:a'']"
    by (simp add: apply_noise_cut_def noise_step_def is_duplicate_def is_echo_def
      fresh_state_def dedup_key_def echo_key_def echo_window_def flap_window_def Let_def
      mk_alert_def engine_defaults_def)
  have k: "dedup_key (mk_alert 0 ''f'' ''svc:a'') = dedup_key (mk_alert 125000 ''f'' ''svc:a'')"
    by (simp add: dedup_key_def mk_alert_def)
  have "(0::nat) < 1 \<and> 1 < length ?out \<and> dedup_key (?out ! 0) = dedup_key (?out ! 1)"
    using k by (simp add: e)
  with dedup_spacing [of engine_defaults fresh_state ?in]
  have "ts (?out ! 0) + dedup_ttl engine_defaults * 1000 \<le> ts (?out ! 1)" by blast
  with e k show ?thesis by simp
qed


section \<open>The primary cause has no lag\<close>

definition example_episode :: "string \<Rightarrow> string \<Rightarrow> int \<Rightarrow> int \<Rightarrow> episode" where
  "example_episode ek fp t0 t1 =
     \<lparr>ep_entity_key = ek, ep_fingerprint = fp, ep_start = t0, ep_end = t1, ep_count = 2,
      vendors = [''datadog''], vendor_event_ids = [''e''], resource_ids = [''r''],
      deploy_keys = [], net_keys = [], sample_ts = [t0, t1],
      ep_alerts = [mk_alert t0 fp ek, mk_alert t1 fp ek]\<rparr>"

text \<open>
  C10. Every situation the cause selector scores (every situation with an episode) is
  emitted with \<open>primary_cause.lag_ms = 0\<close>, whatever its bins and correlations are.
\<close>

theorem primary_cause_lag_zero:
  "raw_episodes s \<noteq> [] \<Longrightarrow>
   map_option pc_lag_ms (so_primary_cause (output_situation (select_primary_cause g st s))) = Some 0"
  by (cases "raw_episodes s") (simp_all add: select_primary_cause_def output_situation_def Let_def)

theorem primary_cause_lag_zero_witness:
  "raw_episodes (the (create_situation [example_episode ''svc:a'' ''f'' 0 20000])) \<noteq> []
   \<and> map_option pc_lag_ms (so_primary_cause (output_situation
        (select_primary_cause [] fresh_state
           (the (create_situation [example_episode ''svc:a'' ''f'' 0 20000]))))) = Some 0"
proof -
  have ne: "raw_episodes (the (create_situation [example_episode ''svc:a'' ''f'' 0 20000])) \<noteq> []"
    by (simp add: create_situation_def Let_def)
  from primary_cause_lag_zero [OF ne, of "[]" fresh_state] ne show ?thesis by simp
qed

section \<open>The correlation records of a situation, pair by pair\<close>

definition opt_list :: "'a option \<Rightarrow> 'a list" where
  "opt_list mo = (case mo of None \<Rightarrow> [] | Some m \<Rightarrow> [m])"

definition kernel_results :: "config \<Rightarrow> (string \<times> int list) list \<Rightarrow> string \<times> string \<Rightarrow> metrics list" where
  "kernel_results cfg bs ab =
     opt_list (burst_correlation cfg (series bs (fst ab)) (series bs (snd ab)))
     @ opt_list (pmi_correlation cfg (series bs (fst ab)) (series bs (snd ab)))
     @ opt_list (leadlag_correlation cfg (series bs (fst ab)) (series bs (snd ab)))"

definition pair_records :: "config \<Rightarrow> set_order \<Rightarrow> situation \<Rightarrow> int \<times> int \<Rightarrow> (string \<times> int list) list \<Rightarrow> string \<times> string \<Rightarrow> correlation list" where
  "pair_records cfg so s w bs ab =
     map (\<lambda>m. \<lparr>corr_method = method_of m,
                corr_situation_id = situation_id s,
                series_a = fst ab,
                series_b = snd ab,
                corr_window = w,
                corr_metrics = m,
                resource_ids_a = get_resource_ids_for_series so s (fst ab),
                resource_ids_b = get_resource_ids_for_series so s (snd ab)\<rparr>)
       (kernel_results cfg bs ab)"

lemma emit_window:
  "padded_window s = Some w \<Longrightarrow>
   emit so s a b mo c = Some (c @ map (\<lambda>m. \<lparr>corr_method = method_of m,
                corr_situation_id = situation_id s,
                series_a = a,
                series_b = b,
                corr_window = w,
                corr_metrics = m,
                resource_ids_a = get_resource_ids_for_series so s a,
                resource_ids_b = get_resource_ids_for_series so s b\<rparr>) (opt_list mo))"
  by (cases mo) (simp_all add: emit_def opt_list_def)

lemma pair_step_window:
  "padded_window s = Some w \<Longrightarrow>
   pair_step cfg so s bs (Some c) ab = Some (c @ pair_records cfg so s w bs ab)"
  by (simp add: pair_step_def Let_def emit_window pair_records_def kernel_results_def)

lemma foldl_pair_step:
  "padded_window s = Some w \<Longrightarrow>
   foldl (pair_step cfg so s bs) (Some c) ps = Some (c @ concat (map (pair_records cfg so s w bs) ps))"
  by (induction ps arbitrary: c) (simp_all add: pair_step_window)

fun method_rank :: "corr_method \<Rightarrow> nat" where
  "method_rank BurstMethod = 0"
| "method_rank PmiMethod = 1"
| "method_rank LeadlagMethod = 2"

lemma burst_method: "burst_correlation cfg sa sb = Some m \<Longrightarrow> method_of m = BurstMethod"
  by (auto simp: burst_correlation_def Let_def split: if_splits)

lemma pmi_method: "pmi_correlation cfg sa sb = Some m \<Longrightarrow> method_of m = PmiMethod"
  by (auto simp: pmi_correlation_def Let_def split: if_splits)

lemma leadlag_method: "leadlag_correlation cfg sa sb = Some m \<Longrightarrow> method_of m = LeadlagMethod"
  by (auto simp: leadlag_correlation_def Let_def split: if_splits)

lemma kernel_results_order:
  "sorted_wrt (<) (map (method_rank \<circ> method_of) (kernel_results cfg bs ab))"
  by (auto simp: kernel_results_def opt_list_def sorted_wrt_append
      dest!: burst_method pmi_method leadlag_method split: option.splits)

section \<open>What the temporal spreader counts\<close>

lemma map_of_dict_set: "map_of (dict_set d k v) = (map_of d)(k \<mapsto> v)"
  by (induction d k v rule: dict_set.induct) auto

lemma keys_dict_set:
  "map fst (dict_set d k v) = (if k \<in> set (map fst d) then map fst d else map fst d @ [k])"
  by (induction d k v rule: dict_set.induct) auto

lemma init_bins_keys:
  "distinct ks \<Longrightarrow> set ks \<inter> set (map fst acc) = {} \<Longrightarrow>
   map fst (foldl (\<lambda>bs k. dict_set bs k v) acc ks) = map fst acc @ ks"
proof (induction ks arbitrary: acc)
  case Nil
  show ?case by simp
next
  case (Cons k ks)
  have k: "k \<notin> set (map fst acc)" using Cons.prems(2) by auto
  then have 1: "map fst (dict_set acc k v) = map fst acc @ [k]" by (simp add: keys_dict_set)
  have "set ks \<inter> set (map fst (dict_set acc k v)) = {}"
    using Cons.prems 1 by auto
  with Cons.IH [of "dict_set acc k v"] Cons.prems(1) 1 show ?case by simp
qed

lemma init_bins_values:
  "map_of (foldl (\<lambda>bs k. dict_set bs k v) acc ks) k' = Some v' \<Longrightarrow>
   v' = v \<or> map_of acc k' = Some v'"
proof (induction ks arbitrary: acc)
  case Nil
  then show ?case by simp
next
  case (Cons k ks)
  from Cons.IH [OF Cons.prems [simplified]] show ?case
    by (auto simp: map_of_dict_set split: if_splits)
qed

definition rows_ok :: "nat \<Rightarrow> (string \<times> int list) list \<Rightarrow> bool" where
  "rows_ok n bs = (\<forall>k v. map_of bs k = Some v \<longrightarrow> length v = n \<and> (\<forall>c \<in> set v. 0 \<le> c))"

definition hit :: "nat \<Rightarrow> (string \<times> int list) list \<Rightarrow> string \<Rightarrow> bool" where
  "hit n bs k = (\<exists>v i. map_of bs k = Some v \<and> i < n \<and> 0 < v ! i)"

lemma bump_bin_keys: "map fst (bump_bin bs k i) = map fst bs"
proof (cases "map_of bs k")
  case None
  then show ?thesis by (simp add: bump_bin_def)
next
  case (Some v)
  then have "k \<in> set (map fst bs)" by (metis map_of_eq_None_iff option.distinct(1) set_map)
  with Some show ?thesis by (simp add: bump_bin_def keys_dict_set)
qed

lemma bump_bin_rows: "rows_ok n bs \<Longrightarrow> rows_ok n (bump_bin bs k i)"
proof (cases "map_of bs k")
  case None
  assume "rows_ok n bs"
  with None show ?thesis by (simp add: bump_bin_def)
next
  case (Some v)
  assume ok: "rows_ok n bs"
  with Some have v: "length v = n" "\<forall>c \<in> set v. 0 \<le> c" by (auto simp: rows_ok_def)
  have "\<forall>c \<in> set (v[i := v ! i + 1]). 0 \<le> c"
  proof (cases "i < length v")
    case True
    then have "0 \<le> v ! i + 1" using v(2) by (simp add: add_nonneg_nonneg)
    moreover have "set (v[i := v ! i + 1]) \<subseteq> insert (v ! i + 1) (set v)"
      by (rule set_update_subset_insert)
    ultimately show ?thesis using v(2) by auto
  next
    case False
    then have "v[i := v ! i + 1] = v" by (simp add: list_update_beyond)
    then show ?thesis using v(2) by simp
  qed
  with ok Some v(1) show ?thesis
    by (auto simp: rows_ok_def bump_bin_def map_of_dict_set)
qed

lemma bump_bin_hit_new:
  "rows_ok n bs \<Longrightarrow> map_of bs k \<noteq> None \<Longrightarrow> i < n \<Longrightarrow> hit n (bump_bin bs k i) k"
proof -
  assume ok: "rows_ok n bs" and k: "map_of bs k \<noteq> None" and i: "i < n"
  from k obtain v where v: "map_of bs k = Some v" by auto
  with ok have len: "length v = n" and nn: "0 \<le> v ! i" using i by (auto simp: rows_ok_def)
  have "map_of (bump_bin bs k i) k = Some (v[i := v ! i + 1])"
    using v by (simp add: bump_bin_def map_of_dict_set)
  moreover have "0 < v[i := v ! i + 1] ! i" using len i nn by simp
  ultimately show ?thesis using i unfolding hit_def by blast
qed

lemma bump_bin_hit_old:
  "rows_ok n bs \<Longrightarrow> hit n bs k' \<Longrightarrow> hit n (bump_bin bs k i) k'"
proof -
  assume ok: "rows_ok n bs" and h: "hit n bs k'"
  from h obtain v' j where v': "map_of bs k' = Some v'" "j < n" "0 < v' ! j"
    unfolding hit_def by blast
  show ?thesis
  proof (cases "map_of bs k")
    case None
    then show ?thesis using h by (simp add: bump_bin_def)
  next
    case (Some v)
    show ?thesis
    proof (cases "k' = k")
      case False
      then have "map_of (bump_bin bs k i) k' = Some v'"
        using Some v'(1) by (simp add: bump_bin_def map_of_dict_set)
      with v' show ?thesis unfolding hit_def by blast
    next
      case True
      with Some v'(1) have vv: "v' = v" by simp
      have len: "length v = n" using ok Some by (simp add: rows_ok_def)
      have m: "map_of (bump_bin bs k i) k' = Some (v[i := v ! i + 1])"
        using Some True by (simp add: bump_bin_def map_of_dict_set)
      have "0 < v[i := v ! i + 1] ! j"
        using v'(2,3) vv len by (cases "i = j") simp_all
      with m v'(2) show ?thesis unfolding hit_def by blast
    qed
  qed
qed

lemma trunc_div_nonneg: "0 \<le> a \<Longrightarrow> 0 < b \<Longrightarrow> trunc_div a b = a div b"
  by (cases "a = 0") (simp_all add: trunc_div_def)

lemma fill_all_hit:
  "0 < bms \<Longrightarrow> rows_ok (nat (trunc_div (e - s) bms + 1)) bs \<Longrightarrow>
   (\<forall>a \<in> set as. s \<le> ts a \<and> ts a \<le> e \<and> map_of bs (fingerprint a) \<noteq> None) \<Longrightarrow>
   (\<forall>k \<in> K. hit (nat (trunc_div (e - s) bms + 1)) bs k) \<Longrightarrow>
   (let bs' = foldl (fill_step s bms (trunc_div (e - s) bms + 1)) bs as in
    map fst bs' = map fst bs \<and> rows_ok (nat (trunc_div (e - s) bms + 1)) bs'
    \<and> (\<forall>k \<in> K \<union> fingerprint ` set as. hit (nat (trunc_div (e - s) bms + 1)) bs' k))"
proof (induction as arbitrary: bs K)
  case Nil
  then show ?case by simp
next
  case (Cons a as)
  let ?n = "trunc_div (e - s) bms + 1"
  let ?i = "trunc_div (ts a - s) bms"
  have range: "s \<le> ts a" "ts a \<le> e" and key: "map_of bs (fingerprint a) \<noteq> None"
    using Cons.prems(3) by auto
  have i: "?i = (ts a - s) div bms" using range Cons.prems(1) by (simp add: trunc_div_nonneg)
  have n: "?n = (e - s) div bms + 1" using range Cons.prems(1) by (simp add: trunc_div_nonneg)
  have i0: "0 \<le> ?i" using i range Cons.prems(1) by (simp add: pos_imp_zdiv_nonneg_iff)
  have "(ts a - s) div bms \<le> (e - s) div bms" using range Cons.prems(1) by (simp add: zdiv_mono1)
  then have iN: "?i < ?n" using i n by simp
  let ?bs = "bump_bin bs (fingerprint a) (nat ?i)"
  have step: "fill_step s bms ?n bs a = ?bs"
    using i0 iN by (simp add: fill_step_def Let_def)
  have lt: "nat ?i < nat ?n" using i0 iN by simp
  have ok: "rows_ok (nat ?n) ?bs" using Cons.prems(2) by (rule bump_bin_rows)
  have keys: "map fst ?bs = map fst bs" by (rule bump_bin_keys)
  have dom: "\<And>k. (map_of ?bs k \<noteq> None) = (map_of bs k \<noteq> None)"
    using keys by (metis map_of_eq_None_iff set_map)
  have 3: "\<forall>a' \<in> set as. s \<le> ts a' \<and> ts a' \<le> e \<and> map_of ?bs (fingerprint a') \<noteq> None"
    using Cons.prems(3) dom by simp
  have 4: "\<forall>k \<in> insert (fingerprint a) K. hit (nat ?n) ?bs k"
    using Cons.prems(2,4) key lt bump_bin_hit_new [of "nat ?n" bs "fingerprint a" "nat ?i"]
      bump_bin_hit_old [of "nat ?n" bs _ "fingerprint a" "nat ?i"] by auto
  from Cons.IH [OF Cons.prems(1) ok 3 4] keys show ?case
    by (simp add: step Let_def)
qed


lemma distinct_bins_all:
  "(\<forall>kv \<in> set bs. list_ex (\<lambda>c. 0 < c) (snd kv)) \<Longrightarrow> distinct_bins bs = length bs"
  by (simp add: distinct_bins_def)

lemma create_bins_full:
  assumes so: "set_order_ok so" and bs: "0 < bin_size"
    and range: "\<forall>a \<in> set alerts. start \<le> ts a \<and> ts a \<le> end"
  shows "map fst (create_bins so alerts start end bin_size) = so (map fingerprint alerts)"
    and "distinct_bins (create_bins so alerts start end bin_size) = length (so (map fingerprint alerts))"
proof -
  define keys where "keys = so (map fingerprint alerts)"
  define bms where "bms = bin_size * 1000"
  define n where "n = nat (trunc_div (end - start) bms + 1)"
  define init where "init = foldl (\<lambda>bs k. dict_set bs k (replicate n (0::int))) [] keys"
  define b where "b = foldl (fill_step start bms (trunc_div (end - start) bms + 1)) init alerts"
  have cb: "create_bins so alerts start end bin_size = b"
    by (simp add: create_bins_def Let_def b_def init_def n_def bms_def keys_def)
  have dk: "distinct keys" and sk: "set keys = fingerprint ` set alerts"
    using so by (simp_all add: set_order_ok_def keys_def)
  have k0: "map fst init = keys"
    unfolding init_def using init_bins_keys [OF dk, where acc = "[]" and v = "replicate n (0::int)"]
    by simp
  have r0: "rows_ok n init"
    unfolding rows_ok_def
  proof (intro allI impI)
    fix k v assume "map_of init k = Some v"
    then have "v = replicate n 0 \<or> map_of [] k = Some v"
      unfolding init_def by (rule init_bins_values)
    then show "length v = n \<and> (\<forall>c \<in> set v. 0 \<le> c)" by simp
  qed
  have d0: "\<forall>a \<in> set alerts. start \<le> ts a \<and> ts a \<le> end \<and> map_of init (fingerprint a) \<noteq> None"
  proof
    fix a assume a: "a \<in> set alerts"
    then have "fingerprint a \<in> set (map fst init)" unfolding k0 sk by simp
    then have "map_of init (fingerprint a) \<noteq> None" by (simp add: map_of_eq_None_iff)
    with range a show "start \<le> ts a \<and> ts a \<le> end \<and> map_of init (fingerprint a) \<noteq> None" by simp
  qed
  have pos: "0 < bms" using bs by (simp add: bms_def)
  have "let bs' = b in map fst bs' = map fst init \<and> rows_ok n bs' \<and>
          (\<forall>k \<in> {} \<union> fingerprint ` set alerts. hit n bs' k)"
    unfolding b_def n_def by (rule fill_all_hit [OF pos r0 [unfolded n_def] d0]) simp
  then have kb: "map fst b = map fst init" and rb: "rows_ok n b"
    and hb: "\<forall>k \<in> fingerprint ` set alerts. hit n b k"
    by (simp_all add: Let_def)
  show "map fst (create_bins so alerts start end bin_size) = so (map fingerprint alerts)"
    unfolding cb kb k0 keys_def ..
  have db: "distinct (map fst b)" unfolding kb k0 by (rule dk)
  have "\<forall>kv \<in> set b. list_ex (\<lambda>c. 0 < c) (snd kv)"
  proof
    fix kv assume kv: "kv \<in> set b"
    then have "fst kv \<in> set (map fst b)" by simp
    then have "fst kv \<in> fingerprint ` set alerts"
      unfolding kb k0 sk .
    with hb obtain v i where v: "map_of b (fst kv) = Some v" "i < n" "0 < v ! i"
      unfolding hit_def by blast
    have "map_of b (fst kv) = Some (snd kv)" using db kv by simp
    with v(1) have e: "v = snd kv" by simp
    have "length v = n" using rb v(1) by (simp add: rows_ok_def)
    then have "v ! i \<in> set v" using v(2) by simp
    with v(3) e show "list_ex (\<lambda>c. 0 < c) (snd kv)"
      unfolding list_ex_iff by blast
  qed
  then have "distinct_bins b = length b" by (rule distinct_bins_all)
  also have "\<dots> = length (map fst b)" by simp
  also have "\<dots> = length keys" unfolding kb k0 ..
  finally show "distinct_bins (create_bins so alerts start end bin_size) = length (so (map fingerprint alerts))"
    unfolding cb keys_def .
qed


definition series_count :: "set_order \<Rightarrow> alert list \<Rightarrow> situation \<Rightarrow> int \<Rightarrow> nat" where
  "series_count so relevant_alerts s pad_ms =
     length (so (map fingerprint
       (rehydrate relevant_alerts (window_start s - pad_ms) (window_end s + pad_ms))))"

lemma set_order_Nil: "set_order_ok so \<Longrightarrow> so [] = []"
  by (metis set_order_ok_def set_empty2 list.set(1))

lemma try_pad_eq:
  assumes so: "set_order_ok so"
  shows "try_pad so rel s pad =
    (if MIN_BINS \<le> series_count so rel s pad
        \<and> MIN_SITUATION_MS \<le> (window_end s + pad) - (window_start s - pad)
     then Some (s\<lparr>pad_ms_used := pad,
                 bin_size_s := BIN_SIZE_S_DEFAULT,
                 bins := Some (create_bins so (rehydrate rel (window_start s - pad) (window_end s + pad))
                          (window_start s - pad) (window_end s + pad) BIN_SIZE_S_DEFAULT),
                 padded_window := Some (window_start s - pad, window_end s + pad),
                 rehydrated_alerts := Some (rehydrate rel (window_start s - pad) (window_end s + pad))\<rparr>)
     else None)"
proof -
  let ?ps = "window_start s - pad" and ?pe = "window_end s + pad"
  let ?re = "rehydrate rel ?ps ?pe"
  have range: "\<forall>a \<in> set ?re. ?ps \<le> ts a \<and> ts a \<le> ?pe" by (simp add: rehydrate_def)
  have d1: "distinct_bins (create_bins so ?re ?ps ?pe BIN_SIZE_S_DEFAULT) = series_count so rel s pad"
    using create_bins_full(2) [OF so _ range, of BIN_SIZE_S_DEFAULT]
    by (simp add: BIN_SIZE_S_DEFAULT_def series_count_def)
  have d5: "distinct_bins (create_bins so ?re ?ps ?pe BIN_SIZE_S_FALLBACK) = series_count so rel s pad"
    using create_bins_full(2) [OF so _ range, of BIN_SIZE_S_FALLBACK]
    by (simp add: BIN_SIZE_S_FALLBACK_def series_count_def)
  show ?thesis
  proof (cases "?re = []")
    case True
    then have "series_count so rel s pad = 0" using so by (simp add: series_count_def set_order_Nil)
    with True show ?thesis by (simp add: try_pad_def Let_def MIN_BINS_def)
  next
    case False
    then show ?thesis by (simp add: try_pad_def Let_def d1 d5 not_less)
  qed
qed

lemma spread_loop_unrolled:
  "spread_loop so rel s PAD_MS_START =
     (case try_pad so rel s 60000 of Some s' \<Rightarrow> Some s' | None \<Rightarrow>
      case try_pad so rel s 120000 of Some s' \<Rightarrow> Some s' | None \<Rightarrow>
      case try_pad so rel s 240000 of Some s' \<Rightarrow> Some s' | None \<Rightarrow>
      case try_pad so rel s 480000 of Some s' \<Rightarrow> Some s' | None \<Rightarrow>
        Some (s\<lparr>insufficient_temporal_spread := True, reason := Some NoSpread\<rparr>))"
proof -
  have stop: "\<And>pad. \<not> pad \<le> MAX_PAD_MS \<Longrightarrow> spread_loop so rel s pad =
      Some (s\<lparr>insufficient_temporal_spread := True, reason := Some NoSpread\<rparr>)"
    by (subst spread_loop.simps) simp
  have step: "\<And>pad. pad \<le> MAX_PAD_MS \<Longrightarrow> spread_loop so rel s pad =
      (case try_pad so rel s pad of Some s' \<Rightarrow> Some s' | None \<Rightarrow> spread_loop so rel s (pad * 2))"
    by (subst spread_loop.simps) simp
  have 5: "spread_loop so rel s 960000 = Some (s\<lparr>insufficient_temporal_spread := True, reason := Some NoSpread\<rparr>)"
    by (rule stop) (simp add: MAX_PAD_MS_def)
  have 4: "spread_loop so rel s 480000 = (case try_pad so rel s 480000 of Some s' \<Rightarrow> Some s' | None \<Rightarrow>
        Some (s\<lparr>insufficient_temporal_spread := True, reason := Some NoSpread\<rparr>))"
    using step [of 480000] 5 by (simp add: MAX_PAD_MS_def split: option.split)
  have 3: "spread_loop so rel s 240000 = (case try_pad so rel s 240000 of Some s' \<Rightarrow> Some s' | None \<Rightarrow>
        spread_loop so rel s 480000)"
    using step [of 240000] by (simp add: MAX_PAD_MS_def split: option.split)
  have 2: "spread_loop so rel s 120000 = (case try_pad so rel s 120000 of Some s' \<Rightarrow> Some s' | None \<Rightarrow>
        spread_loop so rel s 240000)"
    using step [of 120000] by (simp add: MAX_PAD_MS_def split: option.split)
  have 1: "spread_loop so rel s 60000 = (case try_pad so rel s 60000 of Some s' \<Rightarrow> Some s' | None \<Rightarrow>
        spread_loop so rel s 120000)"
    using step [of 60000] by (simp add: MAX_PAD_MS_def split: option.split)
  show ?thesis by (simp only: PAD_MS_START_def 1 2 3 4)
qed

section \<open>The outcomes of the temporal spreader\<close>

definition relevant_alerts :: "alert list \<Rightarrow> situation \<Rightarrow> alert list" where
  "relevant_alerts alerts s = filter (relevant (situation_keys (raw_episodes s))) alerts"

definition spread_at :: "set_order \<Rightarrow> alert list \<Rightarrow> situation \<Rightarrow> int \<Rightarrow> situation" where
  "spread_at so alerts s pad =
     s\<lparr>pad_ms_used := pad,
       bin_size_s := BIN_SIZE_S_DEFAULT,
       bins := Some (create_bins so
                 (rehydrate (relevant_alerts alerts s) (window_start s - pad) (window_end s + pad))
                 (window_start s - pad) (window_end s + pad) BIN_SIZE_S_DEFAULT),
       padded_window := Some (window_start s - pad, window_end s + pad),
       rehydrated_alerts := Some (rehydrate (relevant_alerts alerts s)
                                    (window_start s - pad) (window_end s + pad))\<rparr>"

lemma try_pad_cases:
  assumes "set_order_ok so"
  shows "try_pad so (relevant_alerts alerts s) s pad = None
         \<or> (try_pad so (relevant_alerts alerts s) s pad = Some (spread_at so alerts s pad)
            \<and> MIN_BINS \<le> series_count so (relevant_alerts alerts s) s pad)"
  by (simp add: try_pad_eq [OF assms] spread_at_def)

lemma apply_temporal_spread_cases:
  assumes so: "set_order_ok so"
  obtains (insufficient) s' where "apply_temporal_spread so alerts s = Some s'"
      "insufficient_temporal_spread s'"
  | (spread) pad where "apply_temporal_spread so alerts s = Some (spread_at so alerts s pad)"
      "MIN_BINS \<le> series_count so (relevant_alerts alerts s) s pad"
      "pad \<in> {60000, 120000, 240000, 480000}"
proof (cases "window_end s - window_start s < MIN_SITUATION_MS")
  case True
  then have "apply_temporal_spread so alerts s =
      Some (s\<lparr>insufficient_temporal_spread := True,
               reason := Some (DurationBelowMinimum (window_end s - window_start s))\<rparr>)"
    by (simp add: apply_temporal_spread_def Let_def)
  then show ?thesis by (rule insufficient) simp
next
  case False
  then have a: "apply_temporal_spread so alerts s = spread_loop so (relevant_alerts alerts s) s PAD_MS_START"
    by (simp add: apply_temporal_spread_def Let_def relevant_alerts_def)
  note c = try_pad_cases [OF so, of alerts s]
  show ?thesis
    using c [of 60000] c [of 120000] c [of 240000] c [of 480000]
    by (auto simp: a spread_loop_unrolled intro: insufficient spread)
qed

lemma run_correlations_eq:
  "\<not> insufficient_temporal_spread s \<Longrightarrow> bins s = Some bs \<Longrightarrow> padded_window s = Some w \<Longrightarrow>
   run_correlations cfg so s = Some (concat (map (pair_records cfg so s w bs) (correlation_pairs bs)))"
  using foldl_pair_step [of s w cfg so bs "[]"]
  by (simp add: run_correlations_def correlation_pairs_def limit_series_def)

lemma run_correlations_insufficient:
  "insufficient_temporal_spread s \<Longrightarrow> run_correlations cfg so s = Some []"
  by (simp add: run_correlations_def)

lemma pair_records_mem:
  "r \<in> set (pair_records cfg so s w bs ab) \<Longrightarrow>
   series_a r = fst ab \<and> series_b r = snd ab \<and> corr_metrics r \<in> set (kernel_results cfg bs ab)
   \<and> corr_method r = method_of (corr_metrics r)"
  by (auto simp: pair_records_def)





lemma combinations2_index:
  "(a, b) \<in> set (combinations2 xs) \<Longrightarrow> \<exists>i j. i < j \<and> j < length xs \<and> a = xs ! i \<and> b = xs ! j"
proof (induction xs)
  case Nil
  then show ?case by simp
next
  case (Cons x xs)
  from Cons.prems consider "a = x" "b \<in> set xs" | "(a, b) \<in> set (combinations2 xs)" by auto
  then show ?case
  proof cases
    case 1
    then obtain j where "j < length xs" "b = xs ! j" by (auto simp: in_set_conv_nth)
    with 1 have "0 < Suc j \<and> Suc j < length (x # xs) \<and> a = (x # xs) ! 0 \<and> b = (x # xs) ! Suc j"
      by simp
    then show ?thesis by blast
  next
    case 2
    with Cons.IH obtain i j where "i < j" "j < length xs" "a = xs ! i" "b = xs ! j" by blast
    then have "Suc i < Suc j \<and> Suc j < length (x # xs) \<and> a = (x # xs) ! Suc i \<and> b = (x # xs) ! Suc j"
      by simp
    then show ?thesis by blast
  qed
qed

lemma correlation_pairs_index:
  "(a, b) \<in> set (correlation_pairs bs) \<Longrightarrow>
   \<exists>i j. i < j \<and> j < length (limit_series bs) \<and> a = limit_series bs ! i \<and> b = limit_series bs ! j"
proof -
  assume "(a, b) \<in> set (correlation_pairs bs)"
  then have "(a, b) \<in> set (combinations2 (limit_series bs))"
    by (auto simp: correlation_pairs_def Let_def dest: in_set_takeD split: if_splits)
  then show ?thesis by (rule combinations2_index)
qed

lemma distinct_limit_series:
  assumes "distinct (map fst bs)"
  shows "distinct (limit_series bs)"
proof -
  define t where "t = map (\<lambda>k. (sum_list (series bs k), k)) (map fst bs)"
  have e: "map snd t = map fst bs" by (simp add: t_def o_def)
  have "distinct (map snd t)" unfolding e by (rule assms)
  then have "distinct (map snd (sort t))"
    by (metis distinct_map distinct_sort set_sort)
  then have "distinct (map snd (rev (sort t)))" by (simp add: rev_map [symmetric])
  then have "distinct (take MAX_SERIES (map snd (rev (sort t))))" by (rule distinct_take)
  then have d: "distinct (map snd (take MAX_SERIES (rev (sort t))))" by (simp add: take_map)
  show ?thesis
  proof (cases "length (map fst bs) > MAX_SERIES")
    case True
    then have "limit_series bs = map snd (take MAX_SERIES (rev (sort t)))"
      by (simp add: limit_series_def Let_def t_def)
    with d show ?thesis by simp
  next
    case False
    then have "limit_series bs = map fst bs" by (simp add: limit_series_def Let_def)
    with assms show ?thesis by simp
  qed
qed

lemma spread_at_simps [simp]:
  "bins (spread_at so alerts s pad) = Some (create_bins so
       (rehydrate (relevant_alerts alerts s) (window_start s - pad) (window_end s + pad))
       (window_start s - pad) (window_end s + pad) BIN_SIZE_S_DEFAULT)"
  "padded_window (spread_at so alerts s pad) = Some (window_start s - pad, window_end s + pad)"
  "bin_size_s (spread_at so alerts s pad) = BIN_SIZE_S_DEFAULT"
  "pad_ms_used (spread_at so alerts s pad) = pad"
  "insufficient_temporal_spread (spread_at so alerts s pad) = insufficient_temporal_spread s"
  by (simp_all add: spread_at_def)

lemma spread_at_keys:
  assumes "set_order_ok so"
  shows "distinct (map fst (create_bins so
       (rehydrate (relevant_alerts alerts s) (window_start s - pad) (window_end s + pad))
       (window_start s - pad) (window_end s + pad) BIN_SIZE_S_DEFAULT))"
proof -
  let ?re = "rehydrate (relevant_alerts alerts s) (window_start s - pad) (window_end s + pad)"
  have range: "\<forall>a \<in> set ?re. window_start s - pad \<le> ts a \<and> ts a \<le> window_end s + pad"
    by (simp add: rehydrate_def)
  have "map fst (create_bins so ?re (window_start s - pad) (window_end s + pad) BIN_SIZE_S_DEFAULT)
      = so (map fingerprint ?re)"
    by (rule create_bins_full(1) [OF assms _ range]) (simp add: BIN_SIZE_S_DEFAULT_def)
  then show ?thesis using assms by (simp add: set_order_ok_def)
qed

text \<open>
  The two outcomes of the spreader followed by the correlation engine: no record at all,
  or the records of the pairs of a matrix built with one-second bins.
\<close>

lemma spread_then_correlate:
  assumes so: "set_order_ok so"
  obtains (none) s where "apply_temporal_spread so alerts s0 = Some s"
      "run_correlations cfg so s = Some []"
  | (some) s bs w where "apply_temporal_spread so alerts s0 = Some s"
      "bins s = Some bs" "distinct (map fst bs)" "bin_size_s s = 1" "padded_window s = Some w"
      "\<not> insufficient_temporal_spread s"
      "run_correlations cfg so s = Some (concat (map (pair_records cfg so s w bs) (correlation_pairs bs)))"
  using so
proof (cases rule: apply_temporal_spread_cases [where alerts = alerts and s = s0])
  case (insufficient s')
  then show ?thesis by (intro none [of s']) (simp_all add: run_correlations_insufficient)
next
  case (spread pad)
  define s where "s = spread_at so alerts s0 pad"
  define bs where "bs = create_bins so
         (rehydrate (relevant_alerts alerts s0) (window_start s0 - pad) (window_end s0 + pad))
         (window_start s0 - pad) (window_end s0 + pad) BIN_SIZE_S_DEFAULT"
  have a: "apply_temporal_spread so alerts s0 = Some s" using spread(1) by (simp add: s_def)
  have b: "bins s = Some bs" by (simp add: s_def bs_def)
  have d: "distinct (map fst bs)" unfolding bs_def by (rule spread_at_keys [OF so])
  have z: "bin_size_s s = 1" by (simp add: s_def BIN_SIZE_S_DEFAULT_def)
  have w: "padded_window s = Some (window_start s0 - pad, window_end s0 + pad)" by (simp add: s_def)
  show ?thesis
  proof (cases "insufficient_temporal_spread s0")
    case True
    then have "insufficient_temporal_spread s" by (simp add: s_def)
    then have "run_correlations cfg so s = Some []" by (rule run_correlations_insufficient)
    with a show ?thesis by (rule none)
  next
    case False
    then have i: "\<not> insufficient_temporal_spread s" by (simp add: s_def)
    from run_correlations_eq [OF i b w] a b d z w i show ?thesis by (intro some)
  qed
qed



section \<open>A scenario: three series on one service\<close>

text \<open>
  Six alerts of three fingerprints on one service: \<open>fa\<close> and \<open>fc\<close> fire at 0 and 10 s,
  \<open>fb\<close> one second after them. The situation is the one the assembler builds from the
  episodes of these alerts; the padded window of 60 s holds 132 one-second bins.
\<close>

definition cfgL :: config where
  "cfgL = \<lparr>window = 900, hop = 1, dedup_ttl = 5, episode_gap = 600, max_lag = 1, min_support = 2\<rparr>"

definition alertsL :: "alert list" where
  "alertsL = [mk_alert 0 ''fa'' ''svc:a'', mk_alert 0 ''fc'' ''svc:a'', mk_alert 1000 ''fb'' ''svc:a'',
              mk_alert 10000 ''fa'' ''svc:a'', mk_alert 10000 ''fc'' ''svc:a'', mk_alert 11000 ''fb'' ''svc:a'']"

definition sitL :: situation where
  "sitL = the (hd (the (build_situations [] (build_episodes cfgL remdups (noise_filter cfgL alertsL)))))"

definition rowA :: "int list" where
  "rowA = replicate 60 0 @ [1] @ replicate 9 0 @ [1] @ replicate 61 0"

definition rowB :: "int list" where
  "rowB = replicate 61 0 @ [1] @ replicate 9 0 @ [1] @ replicate 60 0"

definition binsL :: "(string \<times> int list) list" where
  "binsL = [(''fa'', rowA), (''fc'', rowA), (''fb'', rowB)]"

lemma set_order_remdups: "set_order_ok remdups"
  by (simp add: set_order_ok_def)

lemma noise_filter_L: "noise_filter cfgL alertsL = alertsL"
  by code_simp

lemma spread_L:
  "map_option (\<lambda>s. (bins s, padded_window s, insufficient_temporal_spread s, bin_size_s s))
     (apply_temporal_spread remdups alertsL sitL) = Some (Some binsL, Some (-60000, 71000), False, 1)"
  by code_simp

lemma pairs_L: "correlation_pairs binsL = [(''fa'', ''fc''), (''fa'', ''fb''), (''fc'', ''fb'')]"
  by code_simp

lemma series_L:
  "series binsL ''fa'' = rowA" "series binsL ''fb'' = rowB" "series binsL ''fc'' = rowA"
  by (simp_all add: series_def binsL_def)

lemma lags_L: "[0..<nat (min (max_lag cfgL) (int (length (active rowA)) - 1) + 1)] = [0, 1]"
  by code_simp

lemma sums_AB:
  "length rowA = 132" "length rowB = 132"
  "sum_list (active rowA) = 2" "sum_list (active rowB) = 2"
  "lag_aligned (active rowA) (active rowB) 0 = 0"
  "lag_total_a (active rowA) 0 = 2" "lag_total_b (active rowB) 0 = 2"
  "lag_aligned (active rowA) (active rowB) (Suc 0) = 2"
  "lag_total_a (active rowA) (Suc 0) = 2" "lag_total_b (active rowB) (Suc 0) = 2"
  by code_simp+

lemma best_lag_AB: "best_lag cfgL rowA rowB = (1, 1)"
  by (simp add: best_lag_def Let_def lags_L lag_step_def sums_AB)

lemma leadlag_AB: "leadlag_correlation cfgL rowA rowB = Some (Leadlag 1000 1)"
  by (simp add: leadlag_correlation_def Let_def best_lag_AB sums_AB)


lemma sums_AA:
  "lag_aligned (active rowA) (active rowA) 0 = 2"
  "lag_total_b (active rowA) 0 = 2"
  "lag_aligned (active rowA) (active rowA) (Suc 0) = 0"
  "lag_total_b (active rowA) (Suc 0) = 2"
  by code_simp+

lemma best_lag_AA: "best_lag cfgL rowA rowA = (1, 0)"
  by (simp add: best_lag_def Let_def lags_L lag_step_def sums_AB sums_AA)

lemma leadlag_AA: "leadlag_correlation cfgL rowA rowA = Some (Leadlag 0 1)"
  by (simp add: leadlag_correlation_def Let_def best_lag_AA sums_AB)

lemma bursts_L: "bursts rowA = [60, 70]" "bursts rowB = [61, 71]"
  "aligned_bursts [60, 70] [61, 71] = 2"
  by code_simp+

lemma burst_AB: "burst_correlation cfgL rowA rowB = Some (Burst 2 1)"
  by (simp add: burst_correlation_def Let_def bursts_L sums_AB cfgL_def)

lemma kernel_record_emitted:
  assumes "ab \<in> set pairs" and "m \<in> set (kernel_results cfg bs ab)"
  shows "\<exists>r \<in> set (concat (map (pair_records cfg so s w bs) pairs)).
           series_a r = fst ab \<and> series_b r = snd ab \<and> corr_metrics r = m \<and> corr_method r = method_of m"
proof -
  let ?r = "\<lparr>corr_method = method_of m, corr_situation_id = situation_id s,
             series_a = fst ab, series_b = snd ab, corr_window = w, corr_metrics = m,
             resource_ids_a = get_resource_ids_for_series so s (fst ab),
             resource_ids_b = get_resource_ids_for_series so s (snd ab)\<rparr>"
  have "?r \<in> set (pair_records cfg so s w bs ab)"
    using assms(2) by (auto simp: pair_records_def)
  with assms(1) have "?r \<in> set (concat (map (pair_records cfg so s w bs) pairs))" by auto
  then show ?thesis by (intro bexI [of _ ?r]) simp_all
qed

lemma leadlag_in_results:
  "leadlag_correlation cfg (series bs (fst ab)) (series bs (snd ab)) = Some m \<Longrightarrow>
   m \<in> set (kernel_results cfg bs ab)"
  by (simp add: kernel_results_def opt_list_def)

lemma burst_in_results:
  "burst_correlation cfg (series bs (fst ab)) (series bs (snd ab)) = Some m \<Longrightarrow>
   m \<in> set (kernel_results cfg bs ab)"
  by (simp add: kernel_results_def opt_list_def)

text \<open>The situation the spreader returns on the scenario, and the records of its pairs.\<close>

lemma scenario_L:
  obtains s where "apply_temporal_spread remdups alertsL sitL = Some s"
    "bins s = Some binsL" "bin_size_s s = 1"
    "run_correlations cfgL remdups s =
       Some (concat (map (pair_records cfgL remdups s (-60000, 71000) binsL)
          [(''fa'', ''fc''), (''fa'', ''fb''), (''fc'', ''fb'')]))"
proof -
  from spread_L obtain s where s: "apply_temporal_spread remdups alertsL sitL = Some s"
    and p: "bins s = Some binsL" "padded_window s = Some (-60000, 71000)"
      "\<not> insufficient_temporal_spread s" "bin_size_s s = 1"
    by auto
  from run_correlations_eq [OF p(3) p(1) p(2), of cfgL remdups] s p(1,4)
  show ?thesis by (intro that [of s]) (simp_all add: pairs_L)
qed



lemma pair_records_methods:
  "map (method_rank \<circ> corr_method) (pair_records cfg so s w bs ab)
     = map (method_rank \<circ> method_of) (kernel_results cfg bs ab)"
  by (simp add: pair_records_def o_def)

text \<open>
  C2, amended. Within a situation the records are emitted pair by pair, in the order in
  which the pairs are enumerated: the output is the concatenation of one block per pair,
  a block holds records of its pair only, at most one per method, in the order burst,
  PMI, lead-lag. (The records are not grouped by method across the pairs.)
\<close>

theorem correlations_pair_by_pair:
  assumes "set_order_ok so"
  shows "\<exists>s blocks pairs. apply_temporal_spread so alerts s0 = Some s
     \<and> run_correlations cfg so s = Some (concat blocks)
     \<and> (pairs = [] \<or> (\<exists>bs. bins s = Some bs \<and> pairs = correlation_pairs bs))
     \<and> length blocks = length pairs
     \<and> (\<forall>k < length pairs.
           (\<forall>r \<in> set (blocks ! k). (series_a r, series_b r) = pairs ! k)
           \<and> sorted_wrt (<) (map (method_rank \<circ> corr_method) (blocks ! k)))"
  using assms
proof (cases rule: spread_then_correlate [where alerts = alerts and ?s0.0 = s0 and cfg = cfg])
  case (none s)
  then have "apply_temporal_spread so alerts s0 = Some s
     \<and> run_correlations cfg so s = Some (concat [])
     \<and> ([] = [] \<or> (\<exists>bs. bins s = Some bs \<and> [] = correlation_pairs bs))
     \<and> length ([] :: correlation list list) = length ([] :: (string \<times> string) list)
     \<and> (\<forall>k < length ([] :: (string \<times> string) list).
           (\<forall>r \<in> set (([] :: correlation list list) ! k). (series_a r, series_b r) = [] ! k)
           \<and> sorted_wrt (<) (map (method_rank \<circ> corr_method) ([] ! k)))"
    by simp
  then show ?thesis by blast
next
  case (some s bs w)
  let ?pairs = "correlation_pairs bs"
  let ?blocks = "map (pair_records cfg so s w bs) ?pairs"
  have "(\<forall>r \<in> set (?blocks ! k). (series_a r, series_b r) = ?pairs ! k)
           \<and> sorted_wrt (<) (map (method_rank \<circ> corr_method) (?blocks ! k))"
    if "k < length ?pairs" for k
    using that pair_records_mem [of _ cfg so s w bs "?pairs ! k"]
      kernel_results_order [of cfg bs "?pairs ! k"]
    by (auto simp: pair_records_methods)
  then have "apply_temporal_spread so alerts s0 = Some s
     \<and> run_correlations cfg so s = Some (concat ?blocks)
     \<and> (?pairs = [] \<or> (\<exists>bs. bins s = Some bs \<and> ?pairs = correlation_pairs bs))
     \<and> length ?blocks = length ?pairs
     \<and> (\<forall>k < length ?pairs.
           (\<forall>r \<in> set (?blocks ! k). (series_a r, series_b r) = ?pairs ! k)
           \<and> sorted_wrt (<) (map (method_rank \<circ> corr_method) (?blocks ! k)))"
    using some(1,2,7) by simp
  then show ?thesis by blast
qed

text \<open>
  C4, amended. For every emitted correlation record \<open>series_a\<close> and \<open>series_b\<close> are two
  different series keys, and \<open>series_a\<close> stands before \<open>series_b\<close> in the list of series keys
  the engine enumerates (the key order of the bin matrix, which is the iteration order of
  a Python set; the descending activity order above 400 series). The keys are not sorted,
  so \<open>series_a < series_b\<close> need not hold.
\<close>

theorem series_pair_enumeration_order:
  assumes "set_order_ok so"
  shows "\<exists>s out. apply_temporal_spread so alerts s0 = Some s \<and> run_correlations cfg so s = Some out
     \<and> (\<forall>r \<in> set out. series_a r \<noteq> series_b r
           \<and> (\<exists>bs i j. bins s = Some bs \<and> i < j \<and> j < length (limit_series bs)
                 \<and> series_a r = limit_series bs ! i \<and> series_b r = limit_series bs ! j))"
  using assms
proof (cases rule: spread_then_correlate [where alerts = alerts and ?s0.0 = s0 and cfg = cfg])
  case (none s)
  then show ?thesis by auto
next
  case (some s bs w)
  have d: "distinct (limit_series bs)" using some(3) by (rule distinct_limit_series)
  have "series_a r \<noteq> series_b r
           \<and> (\<exists>i j. i < j \<and> j < length (limit_series bs)
                 \<and> series_a r = limit_series bs ! i \<and> series_b r = limit_series bs ! j)"
    if r: "r \<in> set (concat (map (pair_records cfg so s w bs) (correlation_pairs bs)))" for r
  proof -
    from r obtain ab where ab: "ab \<in> set (correlation_pairs bs)"
      "r \<in> set (pair_records cfg so s w bs ab)" by auto
    from pair_records_mem [OF ab(2)] have e: "series_a r = fst ab" "series_b r = snd ab" by simp_all
    from ab(1) correlation_pairs_index [of "fst ab" "snd ab" bs]
    obtain i j where ij: "i < j" "j < length (limit_series bs)"
      "fst ab = limit_series bs ! i" "snd ab = limit_series bs ! j" by auto
    from d ij have "fst ab \<noteq> snd ab" by (simp add: nth_eq_iff_index_eq)
    with e ij show ?thesis by auto
  qed
  with some(1,2,7) show ?thesis by auto
qed


lemma sorted_blocks:
  assumes "sorted (map f (b1 @ b2 @ b3))" "x \<in> set b1" "y \<in> set b2"
  shows "f x \<le> f y"
  using assms by (auto simp: sorted_append)

text \<open>
  C2 as stated fails on the scenario: the first pair emits a lead-lag record, the second
  pair a burst record after it.
\<close>

theorem grouped_by_method_counterexample:
  "\<not> sorted (map (method_rank \<circ> corr_method)
        (the (run_correlations cfgL remdups (the (apply_temporal_spread remdups alertsL sitL)))))"
proof
  obtain s where s: "apply_temporal_spread remdups alertsL sitL = Some s"
    "bins s = Some binsL" "bin_size_s s = 1"
    "run_correlations cfgL remdups s =
       Some (concat (map (pair_records cfgL remdups s (-60000, 71000) binsL)
          [(''fa'', ''fc''), (''fa'', ''fb''), (''fc'', ''fb'')]))"
    by (rule scenario_L)
  let ?b1 = "pair_records cfgL remdups s (-60000, 71000) binsL (''fa'', ''fc'')"
  let ?b2 = "pair_records cfgL remdups s (-60000, 71000) binsL (''fa'', ''fb'')"
  let ?b3 = "pair_records cfgL remdups s (-60000, 71000) binsL (''fc'', ''fb'')"
  assume "sorted (map (method_rank \<circ> corr_method)
        (the (run_correlations cfgL remdups (the (apply_temporal_spread remdups alertsL sitL)))))"
  then have srt: "sorted (map (method_rank \<circ> corr_method) (?b1 @ ?b2 @ ?b3))"
    by (simp add: s)
  have "Leadlag 0 1 \<in> set (kernel_results cfgL binsL (''fa'', ''fc''))"
    by (rule leadlag_in_results) (simp add: series_L leadlag_AA)
  from kernel_record_emitted [OF _ this, of "[(''fa'', ''fc'')]" remdups s "(-60000, 71000)"]
  obtain x where x: "x \<in> set ?b1" "corr_method x = LeadlagMethod" by auto
  have "Burst 2 1 \<in> set (kernel_results cfgL binsL (''fa'', ''fb''))"
    by (rule burst_in_results) (simp add: series_L burst_AB)
  from kernel_record_emitted [OF _ this, of "[(''fa'', ''fb'')]" remdups s "(-60000, 71000)"]
  obtain y where y: "y \<in> set ?b2" "corr_method y = BurstMethod" by auto
  from sorted_blocks [OF srt x(1) y(1)] x(2) y(2) show False by simp
qed

theorem correlations_pair_by_pair_witness:
  "set_order_ok remdups \<and>
   (\<exists>s blocks. apply_temporal_spread remdups alertsL sitL = Some s
      \<and> run_correlations cfgL remdups s = Some (concat blocks)
      \<and> length blocks = 3
      \<and> list_all (\<lambda>r. (series_a r, series_b r) = (''fa'', ''fc'')) (blocks ! 0)
      \<and> sorted_wrt (<) (map (method_rank \<circ> corr_method) (blocks ! 0)))"
proof -
  from correlations_pair_by_pair [OF set_order_remdups, of alertsL sitL cfgL]
  obtain s blocks pairs where a: "apply_temporal_spread remdups alertsL sitL = Some s"
    and o: "run_correlations cfgL remdups s = Some (concat blocks)"
    and p: "pairs = [] \<or> (\<exists>bs. bins s = Some bs \<and> pairs = correlation_pairs bs)"
    and l: "length blocks = length pairs"
    and all: "\<forall>k < length pairs.
           (\<forall>r \<in> set (blocks ! k). (series_a r, series_b r) = pairs ! k)
           \<and> sorted_wrt (<) (map (method_rank \<circ> corr_method) (blocks ! k))"
    by blast
  obtain s' where s': "apply_temporal_spread remdups alertsL sitL = Some s'"
    "bins s' = Some binsL" "bin_size_s s' = 1"
    "run_correlations cfgL remdups s' =
       Some (concat (map (pair_records cfgL remdups s' (-60000, 71000) binsL)
          [(''fa'', ''fc''), (''fa'', ''fb''), (''fc'', ''fb'')]))"
    by (rule scenario_L)
  from a s'(1) have e: "s' = s" by simp
  have "Leadlag 0 1 \<in> set (kernel_results cfgL binsL (''fa'', ''fc''))"
    by (rule leadlag_in_results) (simp add: series_L leadlag_AA)
  from kernel_record_emitted [OF _ this, of "[(''fa'', ''fc''), (''fa'', ''fb''), (''fc'', ''fb'')]" remdups s "(-60000, 71000)"]
  have "concat blocks \<noteq> []" using s'(4) o e by auto
  then have "pairs \<noteq> []" using l by auto
  with p s'(2) e have pairs: "pairs = [(''fa'', ''fc''), (''fa'', ''fb''), (''fc'', ''fb'')]"
    by (auto simp: pairs_L)
  with all have "(\<forall>r \<in> set (blocks ! 0). (series_a r, series_b r) = (''fa'', ''fc''))
           \<and> sorted_wrt (<) (map (method_rank \<circ> corr_method) (blocks ! 0))"
    by auto
  with a o l pairs set_order_remdups show ?thesis
    by (auto simp: list_all_iff)
qed

text \<open>
  C4 as stated fails on the scenario: with the set enumerated as \<open>fa\<close>, \<open>fc\<close>, \<open>fb\<close> the
  pair (\<open>fc\<close>, \<open>fb\<close>) is emitted, and \<open>fc\<close> is not below \<open>fb\<close>.
\<close>

theorem series_sorted_counterexample:
  "\<not> list_all (\<lambda>r. series_a r < series_b r)
        (the (run_correlations cfgL remdups (the (apply_temporal_spread remdups alertsL sitL))))"
proof
  obtain s where s: "apply_temporal_spread remdups alertsL sitL = Some s"
    "bins s = Some binsL" "bin_size_s s = 1"
    "run_correlations cfgL remdups s =
       Some (concat (map (pair_records cfgL remdups s (-60000, 71000) binsL)
          [(''fa'', ''fc''), (''fa'', ''fb''), (''fc'', ''fb'')]))"
    by (rule scenario_L)
  assume "list_all (\<lambda>r. series_a r < series_b r)
        (the (run_correlations cfgL remdups (the (apply_temporal_spread remdups alertsL sitL))))"
  then have all: "\<forall>r \<in> set (concat (map (pair_records cfgL remdups s (-60000, 71000) binsL)
          [(''fa'', ''fc''), (''fa'', ''fb''), (''fc'', ''fb'')])). series_a r < series_b r"
    by (simp add: s list_all_iff)
  have "Leadlag 1000 1 \<in> set (kernel_results cfgL binsL (''fc'', ''fb''))"
    by (rule leadlag_in_results) (simp add: series_L leadlag_AB)
  from kernel_record_emitted [OF _ this, of "[(''fa'', ''fc''), (''fa'', ''fb''), (''fc'', ''fb'')]" remdups s "(-60000, 71000)"]
  obtain r where r: "r \<in> set (concat (map (pair_records cfgL remdups s (-60000, 71000) binsL)
          [(''fa'', ''fc''), (''fa'', ''fb''), (''fc'', ''fb'')]))" "series_a r = ''fc''" "series_b r = ''fb''"
    by auto
  with all have "''fc'' < ''fb''" by metis
  then show False by simp
qed

theorem series_pair_enumeration_order_witness:
  "set_order_ok remdups \<and>
   (\<exists>s out r. apply_temporal_spread remdups alertsL sitL = Some s
      \<and> run_correlations cfgL remdups s = Some out \<and> r \<in> set out
      \<and> series_a r = ''fc'' \<and> series_b r = ''fb'' \<and> series_a r \<noteq> series_b r
      \<and> (\<exists>i j. i < j \<and> j < length (limit_series (the (bins s)))
            \<and> series_a r = limit_series (the (bins s)) ! i \<and> series_b r = limit_series (the (bins s)) ! j))"
proof -
  from series_pair_enumeration_order [OF set_order_remdups, of alertsL sitL cfgL]
  obtain s out where a: "apply_temporal_spread remdups alertsL sitL = Some s"
    and o: "run_correlations cfgL remdups s = Some out"
    and all: "\<forall>r \<in> set out. series_a r \<noteq> series_b r
           \<and> (\<exists>bs i j. bins s = Some bs \<and> i < j \<and> j < length (limit_series bs)
                 \<and> series_a r = limit_series bs ! i \<and> series_b r = limit_series bs ! j)"
    by blast
  obtain s' where s': "apply_temporal_spread remdups alertsL sitL = Some s'"
    "bins s' = Some binsL" "bin_size_s s' = 1"
    "run_correlations cfgL remdups s' =
       Some (concat (map (pair_records cfgL remdups s' (-60000, 71000) binsL)
          [(''fa'', ''fc''), (''fa'', ''fb''), (''fc'', ''fb'')]))"
    by (rule scenario_L)
  from a s'(1) have e: "s' = s" by simp
  have "Leadlag 1000 1 \<in> set (kernel_results cfgL binsL (''fc'', ''fb''))"
    by (rule leadlag_in_results) (simp add: series_L leadlag_AB)
  from kernel_record_emitted [OF _ this, of "[(''fa'', ''fc''), (''fa'', ''fb''), (''fc'', ''fb'')]" remdups s "(-60000, 71000)"]
  obtain r where r: "r \<in> set out" "series_a r = ''fc''" "series_b r = ''fb''"
    using s'(4) o e by auto
  from all r(1) have "series_a r \<noteq> series_b r
           \<and> (\<exists>i j. i < j \<and> j < length (limit_series (the (bins s)))
                 \<and> series_a r = limit_series (the (bins s)) ! i \<and> series_b r = limit_series (the (bins s)) ! j)"
    by fastforce
  with a o r set_order_remdups show ?thesis by blast
qed

section \<open>One series in three bins\<close>

text \<open>
  The count the specification describes: the number of bin indices at which at least one
  series of the matrix holds at least one alert.
\<close>

definition spec_nonempty_bins :: "(string \<times> int list) list \<Rightarrow> nat" where
  "spec_nonempty_bins bs =
     length (filter (\<lambda>i. list_ex (\<lambda>kv. i < length (snd kv) \<and> 0 < snd kv ! i) bs)
       [0..<foldr max (map (\<lambda>kv. length (snd kv)) bs) 0])"

definition alertsS :: "alert list" where
  "alertsS = [mk_alert 0 ''fa'' ''svc:a'', mk_alert 5000 ''fa'' ''svc:a'', mk_alert 10000 ''fa'' ''svc:a'']"

definition sitS :: situation where
  "sitS = the (hd (the (build_situations [] (build_episodes cfgL remdups (noise_filter cfgL alertsS)))))"

text \<open>
  C1 is what the source documents (``Count distinct bins with data'', \<open>MIN_BINS\<close>) and
  not what it computes. Three alerts of one fingerprint at 0, 5 and 10 s pass the noise
  filter and make a situation of 10 s; padded by 60 s, the one-second binning holds three
  distinct non-empty bins. The spreader counts the series that have data, finds one series
  under every padding and marks the situation \<open>insufficient_temporal_spread\<close>.
\<close>

theorem spread_counts_series_not_bins:
  "noise_filter cfgL alertsS = alertsS
   \<and> MIN_SITUATION_MS \<le> window_end sitS - window_start sitS
   \<and> MIN_BINS \<le> spec_nonempty_bins
        (create_bins remdups
           (rehydrate (relevant_alerts alertsS sitS) (window_start sitS - 60000) (window_end sitS + 60000))
           (window_start sitS - 60000) (window_end sitS + 60000) 1)
   \<and> map_option (\<lambda>s. (insufficient_temporal_spread s, reason s, bins s))
        (apply_temporal_spread remdups alertsS sitS) = Some (True, Some NoSpread, None)"
  by code_simp

section \<open>Path gating\<close>

text \<open>The edges of the external graph; a path is a chain of edges, of any length.\<close>

definition graph_edges :: "graph \<Rightarrow> (string \<times> string) set" where
  "graph_edges g = {(a, b). b \<in> set (graph_get g a)}"

lemma bfs_loop_sound:
  "bfs_loop g target visited queue \<Longrightarrow> \<exists>q \<in> set queue. (q, target) \<in> (graph_edges g)\<^sup>*"
proof (induction g target visited queue rule: bfs_loop.induct)
  case (1 g target visited)
  then show ?case by simp
next
  case (2 g target visited current queue)
  show ?case
  proof (cases "current \<in> set visited")
    case True
    with 2 show ?thesis by auto
  next
    case nv: False
    show ?thesis
    proof (cases "current = target")
      case True
      then show ?thesis by auto
    next
      case False
      with nv 2 obtain q where q: "q \<in> set queue \<or> q \<in> set (graph_get g current)"
        "(q, target) \<in> (graph_edges g)\<^sup>*"
        by auto
      show ?thesis
      proof (cases "q \<in> set queue")
        case True
        with q(2) show ?thesis by auto
      next
        case False
        with q(1) have "(current, q) \<in> graph_edges g" by (simp add: graph_edges_def)
        then have "(current, target) \<in> (graph_edges g)\<^sup>*"
          using q(2) by (rule converse_rtrancl_into_rtrancl)
        then show ?thesis by auto
      qed
    qed
  qed
qed

lemma has_path_bfs_sound:
  "has_path_bfs g start target \<Longrightarrow> (start, target) \<in> (graph_edges g)\<^sup>*"
  using bfs_loop_sound [of g target "[]" "[start]"]
  by (auto simp: has_path_bfs_def split: if_splits)

definition primary_candidate :: "situation \<Rightarrow> episode" where
  "primary_candidate s = earliest (hd (raw_episodes s)) (tl (raw_episodes s))"

text \<open>
  Path gating as the claim reads it, after the comment on the loop of
  \<^verbatim>\<open>_check_dependency_path\<close> (\<^verbatim>\<open>BFS to find paths to other entities\<close>): the search reaches,
  from the cause entity, the entity of a member episode that is another entity.
\<close>

definition spec_path_to_other_entity :: "graph \<Rightarrow> episode \<Rightarrow> episode list \<Rightarrow> bool" where
  "spec_path_to_other_entity g cause_episode all_episodes =
     list_ex (\<lambda>ep. ep_entity_key ep \<noteq> ep_entity_key cause_episode
                   \<and> has_path_bfs g (ep_entity_key cause_episode) (ep_entity_key ep))
       all_episodes"

text \<open>
  Where the cap does apply: with a non-empty graph, when no member episode other than the
  cause episode has an entity that is the cause entity itself or is reachable from it by a
  path of graph edges, the reported confidence and the situation score are at most 0.35.
\<close>

lemma unreachable_confidence_capped:
  assumes "g \<noteq> []" and "raw_episodes s \<noteq> []"
    and "\<forall>ep \<in> set (raw_episodes s). ep \<noteq> primary_candidate s \<longrightarrow>
           (ep_entity_key (primary_candidate s), ep_entity_key ep) \<notin> (graph_edges g)\<^sup>*"
  shows "\<exists>pc. so_primary_cause (output_situation (select_primary_cause g st s)) = Some pc
           \<and> pc_confidence pc \<le> 0.35
           \<and> so_score (output_situation (select_primary_cause g st s)) \<le> 0.35"
proof -
  from assms(2) obtain ep0 eps where e: "raw_episodes s = ep0 # eps" by (cases "raw_episodes s") auto
  then have c: "primary_candidate s = earliest ep0 eps" by (simp add: primary_candidate_def)
  have "\<not> check_dependency_path g (earliest ep0 eps) (raw_episodes s)"
    using assms(1,3) has_path_bfs_sound [of g "ep_entity_key (earliest ep0 eps)"]
    by (auto simp: check_dependency_path_def list_ex_iff c)
  then have "confidence_of g st s (earliest ep0 eps) \<le> 0.35"
    using assms(1) by (simp add: confidence_of_def Let_def)
  then show ?thesis
    by (simp add: select_primary_cause_def output_situation_def e Let_def)
qed

text \<open>
  A situation of one episode has no other episode, and is capped. A second episode on the
  cause entity is enough to pass the path check, whatever the graph: the loop skips only the cause
  episode itself, and \<^verbatim>\<open>_has_path_bfs\<close> answers \<^verbatim>\<open>True\<close> for \<^verbatim>\<open>start == target\<close>.
\<close>

lemma single_episode_capped:
  assumes "g \<noteq> []" and "raw_episodes s = [ep]"
  shows "so_score (output_situation (select_primary_cause g st s)) \<le> 0.35"
proof -
  have c: "primary_candidate s = ep" using assms(2) by (simp add: primary_candidate_def)
  have ne: "raw_episodes s \<noteq> []" using assms(2) by simp
  have h: "\<forall>e \<in> set (raw_episodes s). e \<noteq> primary_candidate s \<longrightarrow>
      (ep_entity_key (primary_candidate s), ep_entity_key e) \<notin> (graph_edges g)\<^sup>*"
    unfolding assms(2) c by simp
  from unreachable_confidence_capped [OF assms(1) ne h, of st]
  show ?thesis by (elim exE conjE)
qed

lemma same_entity_passes_gate:
  assumes "ep \<in> set all_episodes" and "ep \<noteq> cause_episode"
    and "ep_entity_key ep = ep_entity_key cause_episode"
  shows "check_dependency_path g cause_episode all_episodes"
proof (cases "g = []")
  case True
  then show ?thesis by (simp add: check_dependency_path_def)
next
  case False
  have "has_path_bfs g (ep_entity_key cause_episode) (ep_entity_key ep)"
    unfolding has_path_bfs_def assms(3) by simp
  with assms(1,2)
  have "\<exists>e \<in> set all_episodes. e \<noteq> cause_episode
      \<and> has_path_bfs g (ep_entity_key cause_episode) (ep_entity_key e)"
    by blast
  then show ?thesis unfolding check_dependency_path_def list_ex_iff using False by simp
qed

text \<open>
  Two scenarios with the graph \<open>svc:x \<rightarrow> svc:y\<close>, which touches neither: two episodes of
  different fingerprints on the one entity \<open>svc:a\<close>, the earlier one with a deploy key; and
  two episodes of one fingerprint on \<open>svc:a\<close> and \<open>svc:b\<close>.
\<close>

definition gC :: graph where
  "gC = [(''svc:x'', [''svc:y''])]"

definition alertsC :: "alert list" where
  "alertsC = [(mk_alert 0 ''fa'' ''svc:a'')\<lparr>deploy_key := Some ''abc123''\<rparr>, mk_alert 1000 ''fb'' ''svc:a'']"

definition sitC :: situation where
  "sitC = the (hd (the (build_situations gC (build_episodes cfgL remdups (noise_filter cfgL alertsC)))))"

definition stC :: noise_state where
  "stC = fst (apply_noise_cut cfgL fresh_state alertsC)"

definition alertsW :: "alert list" where
  "alertsW = [(mk_alert 0 ''fa'' ''svc:a'')\<lparr>deploy_key := Some ''abc123''\<rparr>, mk_alert 1000 ''fa'' ''svc:b'']"

definition sitW :: situation where
  "sitW = the (hd (the (build_situations gC (build_episodes cfgL remdups (noise_filter cfgL alertsW)))))"

definition stW :: noise_state where
  "stW = fst (apply_noise_cut cfgL fresh_state alertsW)"

lemma select_primary_cause_candidate:
  "raw_episodes s \<noteq> [] \<Longrightarrow>
   so_primary_cause (output_situation (select_primary_cause g st s))
     = Some \<lparr>pc_entity = ep_entity_key (primary_candidate s),
             pc_fingerprint = ep_fingerprint (primary_candidate s),
             pc_confidence = confidence_of g st s (primary_candidate s),
             pc_lag_ms = 0\<rparr>
   \<and> so_score (output_situation (select_primary_cause g st s)) = confidence_of g st s (primary_candidate s)"
  by (cases "raw_episodes s")
    (simp_all add: select_primary_cause_def output_situation_def primary_candidate_def Let_def)

lemma facts_C:
  "raw_episodes sitC \<noteq> []"
  "length (raw_episodes sitC) = 2"
  "list_all (\<lambda>ep. ep_entity_key ep = ''svc:a'') (raw_episodes sitC)"
  "check_dependency_path gC (primary_candidate sitC) (raw_episodes sitC)"
  "deploy_keys (primary_candidate sitC) \<noteq> []"
  "length (remdups (map ep_entity_key (raw_episodes sitC))) = 1"
  "max_severity Low (ep_alerts (primary_candidate sitC)) = High"
  "calculate_flap_score stC (ep_fingerprint (primary_candidate sitC)) (ep_entity_key (primary_candidate sitC)) = 0"
  "length (echo_tracker stC (ep_fingerprint (primary_candidate sitC), ep_entity_key (primary_candidate sitC))) = 1"
  by code_simp+

lemma gC_nonempty: "gC \<noteq> []"
  by (simp add: gC_def)

lemma confidence_C: "confidence_of gC stC sitC (primary_candidate sitC) = 0.5625"
  by (simp add: confidence_of_def calculate_score_components_def composite_score_def Let_def
      facts_C gC_nonempty)

lemma gate_C:
  "\<not> spec_path_to_other_entity gC (primary_candidate sitC) (raw_episodes sitC)"
  "\<not> in_graph gC ''svc:a''"
  "ep_entity_key (primary_candidate sitC) = ''svc:a''"
  by code_simp+

text \<open>
  C7. The claim is what the source means to do, and the code does not do it. On the first
  scenario the situation has two episodes, both on \<open>svc:a\<close>: there is no other member
  entity, \<open>svc:a\<close> is not a node of the graph, and no path leads from the cause entity to
  another member entity. The code takes the second episode as a target all the same, the
  path check succeeds, \<^verbatim>\<open>graph_path\<close> is scored 0.5 and the confidence 0.5625 is reported, above
  the cap of 0.35.
\<close>

theorem same_entity_episode_escapes_cap:
  "gC \<noteq> [] \<and> length (raw_episodes sitC) = 2
   \<and> list_all (\<lambda>ep. ep_entity_key ep = ''svc:a'') (raw_episodes sitC)
   \<and> \<not> in_graph gC ''svc:a''
   \<and> \<not> spec_path_to_other_entity gC (primary_candidate sitC) (raw_episodes sitC)
   \<and> check_dependency_path gC (primary_candidate sitC) (raw_episodes sitC)
   \<and> map_option pc_confidence (so_primary_cause (output_situation (select_primary_cause gC stC sitC))) = Some 0.5625
   \<and> so_score (output_situation (select_primary_cause gC stC sitC)) = 0.5625
   \<and> \<not> so_score (output_situation (select_primary_cause gC stC sitC)) \<le> 0.35"
  using select_primary_cause_candidate [OF facts_C(1), of gC stC]
  by (simp add: confidence_C facts_C gate_C gC_nonempty)

lemma facts_W:
  "raw_episodes sitW \<noteq> []"
  "ep_entity_key (primary_candidate sitW) = ''svc:a''"
  "list_all (\<lambda>ep. ep = primary_candidate sitW \<or> ep_entity_key ep = ''svc:b'') (raw_episodes sitW)"
  "length (raw_episodes sitW) = 2"
  by code_simp+

lemma unreachable_W: "(''svc:a'', ''svc:b'') \<notin> (graph_edges gC)\<^sup>*"
proof
  assume "(''svc:a'', ''svc:b'') \<in> (graph_edges gC)\<^sup>*"
  then show False
  proof (cases rule: converse_rtranclE)
    case base
    then show ?thesis by simp
  next
    case (step z)
    then show ?thesis by (simp add: graph_edges_def graph_get_def gC_def)
  qed
qed

text \<open>
  On the second scenario \<open>svc:b\<close> is not reachable from \<open>svc:a\<close>, and the confidence is
  capped.
\<close>

lemma unreachable_confidence_capped_example:
  "gC \<noteq> [] \<and> raw_episodes sitW \<noteq> [] \<and> length (raw_episodes sitW) = 2
   \<and> ep_entity_key (primary_candidate sitW) = ''svc:a''
   \<and> list_all (\<lambda>ep. ep = primary_candidate sitW \<or> ep_entity_key ep = ''svc:b'') (raw_episodes sitW)
   \<and> (''svc:a'', ''svc:b'') \<notin> (graph_edges gC)\<^sup>*
   \<and> so_score (output_situation (select_primary_cause gC stW sitW)) \<le> 0.35"
proof -
  have g: "gC \<noteq> []" by (rule gC_nonempty)
  have h: "\<forall>ep \<in> set (raw_episodes sitW). ep \<noteq> primary_candidate sitW \<longrightarrow>
           (ep_entity_key (primary_candidate sitW), ep_entity_key ep) \<notin> (graph_edges gC)\<^sup>*"
    using facts_W(3) unreachable_W by (auto simp: list_all_iff facts_W(2))
  from unreachable_confidence_capped [OF g facts_W(1) h, of stW]
  have "so_score (output_situation (select_primary_cause gC stW sitW)) \<le> 0.35" by blast
  with g facts_W unreachable_W show ?thesis by simp
qed

section \<open>The union-find calls return\<close>














section \<open>The groups of the situation assembler\<close>















section \<open>The order of the situation records\<close>





























section \<open>Empty input\<close>

fun is_run_meta :: "out_record \<Rightarrow> bool" where
  "is_run_meta (RunMeta m) = True"
| "is_run_meta _ = False"

text \<open>
  C6 as stated fails: on an empty input \<^verbatim>\<open>run\<close> prints a message and returns before
  \<^verbatim>\<open>_write_output\<close>, so the output holds no record at all, and no \<open>run_meta\<close> record.
\<close>

theorem empty_input_counterexample:
  "run engine_defaults remdups [] (Some :: alert \<Rightarrow> alert option) [] = Some []
   \<and> \<not> list_ex is_run_meta (the (run engine_defaults remdups [] (Some :: alert \<Rightarrow> alert option) []))"
  by (simp add: run_def)

text \<open>
  C6, amended. When the input contains no alerts, the pipeline returns before the emitter
  runs: the output stream holds no record, neither \<open>run_meta\<close> nor a situation nor a
  correlation.
\<close>

theorem empty_input_writes_nothing: "run cfg so g normalizer [] = Some []"
  by (simp add: run_def)

end
